theory Spec2Isabelle
  imports Main "HOL-Library.Sublist" "HOL-Library.Multiset"
begin

section \<open>Data model of the search query parser\<close>

text \<open>
  The TypeScript sources work on JavaScript strings and numbers. Strings are modelled as
  \<^typ>\<open>string\<close> (lists of 8-bit characters), so the model speaks about inputs whose
  characters are single code units below 256; \<open>s.length\<close> is \<^term>\<open>length s\<close>.
  Positions and lengths are offsets into the input, whole numbers that JavaScript computes
  exactly, and are modelled as \<^typ>\<open>nat\<close>.

  \<open>PositionLength\<close> (imported from the first-pass parser, used as \<open>& PositionLength\<close> in
  \<open>parser.ts\<close>) is a record with the two fields \<open>position\<close> and \<open>length\<close>; the second field is
  called \<open>len\<close> here because \<open>length\<close> is the list function of HOL.
\<close>

record PositionLength =
  position :: nat
  len :: nat

text \<open>
  \<open>Field\<close> and \<open>Value\<close> of \<open>parser.ts\<close> are both \<open>{type, value} & PositionLength\<close>; their
  \<open>type\<close> tag (\<open>"FIELD"\<close>, \<open>"VALUE"\<close>) is fixed by the place where they occur, so one record
  serves for both.
\<close>

record Value = PositionLength +
  "value" :: string

type_synonym Field = Value

text \<open>\<open>type RangeOperator = ">=" | ">" | "<=" | "<" | "BETWEEN"\<close>; the operator is its text.\<close>

datatype RangeOperator = GE | GT | LE | LT | BETWEEN

fun operator_text :: "RangeOperator \<Rightarrow> string" where
  "operator_text GE = ''>=''"
| "operator_text GT = ''>''"
| "operator_text LE = ''<=''"
| "operator_text LT = ''<''"
| "operator_text BETWEEN = ''BETWEEN''"

text \<open>
  The second-pass AST \<open>Expression\<close> of \<open>parser.ts\<close>. Every variant except \<open>FIELD_VALUE\<close>
  carries \<open>position\<close> and \<open>length\<close> (the last two arguments). \<open>value2\<close> of a \<open>RANGE\<close> is
  optional in the source.
\<close>

datatype Expression =
    SEARCH_TERM string nat nat
  | WILDCARD string bool nat nat
  | FIELD_VALUE Field Value
  | RANGE Field RangeOperator Value "Value option" nat nat
  | AND Expression Expression nat nat
  | OR Expression Expression nat nat
  | NOT Expression nat nat
  | IN Field "Value list" nat nat

section \<open>The serializer \<open>stringify\<close>\<close>

text \<open>\<open>String.prototype.includes\<close>: does \<open>t\<close> occur as a contiguous substring of \<open>s\<close>.\<close>

fun "includes" :: "string \<Rightarrow> string \<Rightarrow> bool" where
  "includes [] t = (t = [])"
| "includes (c # cs) t = (prefix t (c # cs) \<or> includes cs t)"

text \<open>\<open>Array.prototype.join\<close> with a separator.\<close>

fun join :: "string \<Rightarrow> string list \<Rightarrow> string" where
  "join sep [] = []"
| "join sep [x] = x"
| "join sep (x # y # ys) = x @ sep @ join sep (y # ys)"

text \<open>
  The quoting expression \<open>v.includes(" ") ? `"${v}"` : v\<close>, which \<open>stringify\<close> writes twice
  (for a \<open>SEARCH_TERM\<close> and for each value of an \<open>IN\<close>).
\<close>

definition quote_if_space :: "string \<Rightarrow> string" where
  "quote_if_space v = (if includes v '' '' then [CHR 0x22] @ v @ [CHR 0x22] else v)"

fun stringify :: "Expression \<Rightarrow> string" where
  "stringify (SEARCH_TERM v p l) = quote_if_space v"
| "stringify (WILDCARD pre quoted p l) =
     (if quoted then [CHR 0x22] @ pre @ ''*'' @ [CHR 0x22] else pre @ ''*'')"
| "stringify (FIELD_VALUE f v) = value f @ '':'' @ value v"
| "stringify (RANGE f operator v v2 p l) =
     (if operator = BETWEEN
      then value f @ '':'' @ value v @ ''..'' @
           (case v2 of None \<Rightarrow> ''undefined'' | Some w \<Rightarrow> value w)
      else value f @ '':'' @ operator_text operator @ value v)"
| "stringify (NOT e p l) = ''NOT ('' @ stringify e @ '')''"
| "stringify (AND a b p l) = ''('' @ stringify a @ '' AND '' @ stringify b @ '')''"
| "stringify (OR a b p l) = ''('' @ stringify a @ '' OR '' @ stringify b @ '')''"
| "stringify (IN f vs p l) =
     value f @ '':IN('' @ join '','' (map (\<lambda>v. quote_if_space (value v)) vs) @ '')''"

section \<open>The structural check of an IN node: \<open>validateInExpression\<close>\<close>

text \<open>
  Modelled from the spec: the enum \<open>SearchQueryErrorCode\<close> is declared in \<open>validator.ts\<close>,
  which is not among the sources; the spec (section 7) lists its members.
\<close>

datatype SearchQueryErrorCode =
    INVALID_FIELD_CHARS
  | RESERVED_WORD_AS_FIELD
  | INVALID_IN_VALUE
  | UNKNOWN_FIELD
  | TYPE_MISMATCH

text \<open>
  \<open>ValidationError\<close> as the sources build it: \<open>{message, code, value, position, length}\<close>.
  The object thrown for a leftover token in \<open>parseSearchInputQuery\<close> has no \<open>code\<close>, and
  only the reserved-word diagnostic has a \<open>value\<close>, so both are optional (\<open>evalue\<close> is the
  source's \<open>value\<close>).
\<close>

record ValidationError = PositionLength +
  message :: string
  code :: "SearchQueryErrorCode option"
  evalue :: "string option"

text \<open>
  The first-pass \<open>InExpression\<close>, as \<open>validateInExpression\<close> reads it: \<open>field\<close> is a string,
  \<open>values\<close> an array of strings, and the node has \<open>position\<close> and \<open>length\<close>.
\<close>

record InExpression = PositionLength +
  field :: string
  "values" :: "string list"

text \<open>
  Modelled from the spec: the set \<open>reservedWords\<close> is exported by \<open>validator.ts\<close>, which is
  not among the sources; the spec names the reserved keywords AND, OR, NOT and IN.
\<close>

definition reservedWords :: "string set" where
  "reservedWords = {''AND'', ''OR'', ''NOT'', ''IN''}"

text \<open>
  \<open>String.prototype.toUpperCase\<close> on the characters of the model: the letters \<open>a\<close> to \<open>z\<close>
  are mapped to \<open>A\<close> to \<open>Z\<close>, every other character is kept. JavaScript also maps letters
  beyond ASCII; of the characters of the model none is mapped to a letter of a reserved
  word that way, so the test \<open>reservedWords.has(expr.field.toUpperCase())\<close> has the same
  outcome.
\<close>

definition toUpperCase_char :: "char \<Rightarrow> char" where
  "toUpperCase_char c =
     (case map_of (zip ''abcdefghijklmnopqrstuvwxyz'' ''ABCDEFGHIJKLMNOPQRSTUVWXYZ'') c of
        None \<Rightarrow> c
      | Some u \<Rightarrow> u)"

definition toUpperCase :: "string \<Rightarrow> string" where
  "toUpperCase s = map toUpperCase_char s"

text \<open>
  The character classes \<open>[a-zA-Z]\<close> and \<open>[a-zA-Z0-9_-]\<close> of the field-name pattern; a range
  \<open>lo-hi\<close> of a class is the characters whose code lies between the codes of \<open>lo\<close> and \<open>hi\<close>.
\<close>

definition in_range :: "char \<Rightarrow> char \<Rightarrow> char \<Rightarrow> bool" where
  "in_range lo hi c = ((of_char lo :: nat) \<le> of_char c \<and> (of_char c :: nat) \<le> of_char hi)"

definition is_letter :: "char \<Rightarrow> bool" where
  "is_letter c = (in_range CHR ''a'' CHR ''z'' c \<or> in_range CHR ''A'' CHR ''Z'' c)"

definition is_field_char :: "char \<Rightarrow> bool" where
  "is_field_char c =
     (in_range CHR ''a'' CHR ''z'' c \<or> in_range CHR ''A'' CHR ''Z'' c \<or> in_range CHR ''0'' CHR ''9'' c
      \<or> c = CHR ''_'' \<or> c = CHR ''-'')"

text \<open>
  \<open>/^[a-zA-Z][a-zA-Z0-9_-]*$/.test(s)\<close>. The pattern has no flags, so \<open>^\<close> and \<open>$\<close> are the
  two ends of the string: one letter, then only characters of the second class.
\<close>

fun field_pattern_test :: "string \<Rightarrow> bool" where
  "field_pattern_test [] = False"
| "field_pattern_test (c # cs) = (is_letter c \<and> list_all is_field_char cs)"

text \<open>The three objects that \<open>validateInExpression\<close> pushes.\<close>

definition invalid_field_chars_error :: "InExpression \<Rightarrow> ValidationError" where
  "invalid_field_chars_error expr =
     \<lparr>position = position expr, len = length (field expr),
      message = ''Invalid characters in field name'',
      code = Some INVALID_FIELD_CHARS, evalue = None\<rparr>"

definition reserved_word_error :: "InExpression \<Rightarrow> ValidationError" where
  "reserved_word_error expr =
     \<lparr>position = position expr, len = length (field expr),
      message = field expr @ '' is a reserved word'',
      code = Some RESERVED_WORD_AS_FIELD, evalue = Some (field expr)\<rparr>"

definition invalid_in_value_error :: "InExpression \<Rightarrow> nat \<Rightarrow> string \<Rightarrow> ValidationError" where
  "invalid_in_value_error expr index v =
     \<lparr>position = position expr + length (field expr) + 3 + index * (length v + 1),
      len = length v,
      message = ''Invalid character in IN value'',
      code = Some INVALID_IN_VALUE, evalue = None\<rparr>"

text \<open>
  \<open>validateInExpression(expr, errors)\<close> pushes onto the array \<open>errors\<close>; the model takes the
  array and returns it extended. The \<open>forEach((value, index) => ...)\<close> is a fold over the
  values paired with their indices.
\<close>

definition validateInExpression :: "InExpression \<Rightarrow> ValidationError list \<Rightarrow> ValidationError list" where
  "validateInExpression expr errors =
     (let errors1 = (if \<not> field_pattern_test (field expr)
                     then errors @ [invalid_field_chars_error expr] else errors);
          errors2 = (if toUpperCase (field expr) \<in> reservedWords
                     then errors1 @ [reserved_word_error expr] else errors1)
      in fold (\<lambda>(index, v) errs.
                 if includes v '','' then errs @ [invalid_in_value_error expr index v] else errs)
              (enumerate 0 (values expr)) errors2)"

section \<open>The entry point \<open>parseSearchInputQuery\<close>\<close>

subsection \<open>Types of the interface\<close>

text \<open>
  \<open>interface FieldSchema { name: string; type: "string" | "number" | "date" | "boolean" }\<close>.
\<close>

datatype FieldType = StringType | NumberType | DateType | BooleanType

record FieldSchema =
  name :: string
  field_type :: FieldType

text \<open>
  Modelled from the spec: \<open>Token\<close> and \<open>TokenType\<close> are declared in \<open>lexer.ts\<close>, which is
  not among the sources. \<open>parseSearchInputQuery\<close> reads \<open>type\<close>, \<open>position\<close> and \<open>length\<close> of a
  token and compares the type with \<open>TokenType.EOF\<close>; the spec (section 3) gives a token as
  \<open>{kind, text, position, length}\<close> and lists the kinds; the field \<open>type\<close> holds the kind
  and \<open>text_of\<close> the text. The last kind, \<open>MALFORMED\<close>, is the distinguishable token that
  section 4.1 asks for in place of a malformed lexical fragment.
\<close>

datatype TokenType =
    KEYWORD | FIELD_NAME | COLON | QUOTED_STRING | NUMBER | DATE | BARE_VALUE
  | WILDCARD_FRAGMENT | RANGE_OPERATOR | LPAREN | RPAREN | COMMA | IDENTIFIER | EOF
  | MALFORMED

record Token = PositionLength +
  "type" :: TokenType
  text_of :: string

text \<open>
  The two result objects. \<open>{type: "SEARCH_QUERY", expression}\<close> and
  \<open>{type: "SEARCH_QUERY_ERROR", expression: null, errors}\<close>: the first argument is the
  \<open>expression\<close> field (\<open>None\<close> for \<open>null\<close>), the second argument of the error result is its
  \<open>errors\<close> field. A \<open>SEARCH_QUERY\<close> object has no \<open>errors\<close> field.
\<close>

datatype SearchResult =
    SEARCH_QUERY "Expression option"
  | SEARCH_QUERY_ERROR "Expression option" "ValidationError list"

text \<open>
  The stages that \<open>parseSearchInputQuery\<close> imports from files that are not among the
  sources (\<open>lexer.ts\<close>, \<open>first-pass-parser.ts\<close>, \<open>validator.ts\<close>,
  \<open>validate-expression-fields.ts\<close>, \<open>transform-to-expression.ts\<close>) are parameters of the
  model: a record of functions over an arbitrary type of token streams and an arbitrary type
  of first-pass syntax trees. Any of them may throw; a call returns \<open>Inl e\<close> when it throws the
  value \<open>e\<close> and \<open>Inr r\<close> when it returns \<open>r\<close>. A thrown value ends up in the array
  \<open>errors: ValidationError[]\<close>, so it is modelled as a \<open>ValidationError\<close>.

  \<open>parseExpression\<close> returns an object \<open>{result, stream}\<close>, modelled as a pair.
  \<open>validateExpressionFields(tree, columnSet, fieldErrors, schemaMap)\<close> pushes onto the
  array \<open>fieldErrors\<close>; the model passes the array in and gets the extended array back.
\<close>

record ('stream, 'tree) stages =
  tokenize :: "string \<Rightarrow> ValidationError + Token list"
  createStream :: "Token list \<Rightarrow> ValidationError + 'stream"
  currentToken :: "'stream \<Rightarrow> ValidationError + Token"
  parseExpression :: "'stream \<Rightarrow> ValidationError + ('tree \<times> 'stream)"
  validateSearchQuery :: "'tree \<Rightarrow> ValidationError + ValidationError list"
  validateExpressionFields ::
    "'tree \<Rightarrow> string set \<Rightarrow> ValidationError list \<Rightarrow> (string \<rightharpoonup> FieldSchema)
       \<Rightarrow> ValidationError + ValidationError list"
  transformToExpression :: "'tree \<Rightarrow> (string \<rightharpoonup> FieldSchema) \<Rightarrow> ValidationError + Expression"

subsection \<open>Helpers of the body\<close>

text \<open>
  \<open>String.prototype.toLowerCase\<close> on the characters of the model: the letters \<open>A\<close> to \<open>Z\<close>
  are mapped to \<open>a\<close> to \<open>z\<close>, the capital letters of Latin-1 (the code units 0xC0 to 0xDE
  but for the multiplication sign 0xD7) to the code unit 0x20 above them, and every other
  character is kept.
\<close>

definition toLowerCase_char :: "char \<Rightarrow> char" where
  "toLowerCase_char c =
     (case map_of (zip ''ABCDEFGHIJKLMNOPQRSTUVWXYZ'' ''abcdefghijklmnopqrstuvwxyz'') c of
        None \<Rightarrow> (let n = of_char c :: nat
                 in if 192 \<le> n \<and> n \<le> 222 \<and> n \<noteq> 215 then char_of (n + 32) else c)
      | Some u \<Rightarrow> u)"

definition toLowerCase :: "string \<Rightarrow> string" where
  "toLowerCase s = map toLowerCase_char s"

text \<open>
  \<open>new Map(fieldSchemas.map((s) => [s.name.toLowerCase(), s]))\<close>: a later entry with the same
  key replaces an earlier one, so the association list is read from its end.
\<close>

definition schemaMap_of :: "FieldSchema list \<Rightarrow> (string \<rightharpoonup> FieldSchema)" where
  "schemaMap_of fieldSchemas = map_of (rev (map (\<lambda>s. (toLowerCase (name s), s)) fieldSchemas))"

text \<open>The decimal text of a number, as a template literal \<open>`${n}`\<close> prints it.\<close>

definition digit_char :: "nat \<Rightarrow> char" where
  "digit_char d = ''0123456789'' ! d"

fun number_text :: "nat \<Rightarrow> string" where
  "number_text n = (if n < 10 then [digit_char n] else number_text (n div 10) @ [digit_char (n mod 10)])"

declare number_text.simps [simp del]

text \<open>The key \<open>`${position}-${length}`\<close> of a diagnostic.\<close>

definition error_key :: "ValidationError \<Rightarrow> string" where
  "error_key e = number_text (position e) @ ''-'' @ number_text (len e)"

text \<open>
  Lines 170 to 185 of \<open>parser.ts\<close>: the merge of the structural diagnostics \<open>errors\<close> with
  the schema diagnostics \<open>fieldErrors\<close>. \<open>Array.prototype.sort\<close> is a stable sort
  (ECMAScript 2019), and the comparator \<open>a.position - b.position\<close> orders by position
  ascending, so the sort is the stable insertion sort \<^const>\<open>sort_key\<close> on \<^const>\<open>position\<close>.
\<close>

definition mergeErrors :: "ValidationError list \<Rightarrow> ValidationError list \<Rightarrow> ValidationError list" where
  "mergeErrors errors fieldErrors =
     (let fieldErrorKeys = map error_key fieldErrors;
          errorsToRemove = filter (\<lambda>e. List.member fieldErrorKeys (error_key e)) errors;
          fieldErrorsFiltered =
            filter (\<lambda>f. \<not> list_ex (\<lambda>error. position error = position f \<and> len error = len f)
                                     errorsToRemove)
                   fieldErrors
      in sort_key position (errors @ fieldErrorsFiltered))"

text \<open>The object thrown when a token is left over after \<open>parseExpression\<close>.\<close>

definition unexpected_token_error :: "Token \<Rightarrow> ValidationError" where
  "unexpected_token_error finalToken =
     \<lparr>position = position finalToken, len = len finalToken,
      message = ''Unexpected '' @ [CHR 0x22] @ '')'' @ [CHR 0x22],
      code = None, evalue = None\<rparr>"

subsection \<open>The function\<close>

text \<open>
  Sequencing inside the \<open>try\<close> block: \<open>Inl e\<close> is an exception \<open>e\<close> leaving the block,
  \<open>Inr r\<close> a value. \<open>and_then c f\<close> runs the call \<open>c\<close> and continues with \<open>f\<close> on what it
  returned; a thrown value skips the rest of the block.
\<close>

definition and_then :: "'e + 'a \<Rightarrow> ('a \<Rightarrow> 'e + 'b) \<Rightarrow> 'e + 'b" where
  "and_then c f = (case c of Inl e \<Rightarrow> Inl e | Inr r \<Rightarrow> f r)"

text \<open>
  The body of the \<open>try\<close> block, statement by statement; its value \<open>Inr r\<close> is a \<open>return r\<close>
  inside the block.
\<close>

definition parse_try_block ::
  "('stream, 'tree) stages \<Rightarrow> string \<Rightarrow> FieldSchema list \<Rightarrow> ValidationError + SearchResult" where
  "parse_try_block st input fieldSchemas =
     and_then (tokenize st input) (\<lambda>tokens.
     and_then (createStream st tokens) (\<lambda>stream.
     and_then (currentToken st stream) (\<lambda>firstToken.
     if type firstToken = EOF then Inr (SEARCH_QUERY None)
     else
     and_then (parseExpression st stream) (\<lambda>result.
     and_then (currentToken st (snd result)) (\<lambda>finalToken.
     if type finalToken \<noteq> EOF then Inl (unexpected_token_error finalToken)
     else
     and_then (validateSearchQuery st (fst result)) (\<lambda>errors.
     let allowedFields = map (\<lambda>s. toLowerCase (name s)) fieldSchemas in
     and_then (if length allowedFields > 0
               then validateExpressionFields st (fst result)
                      (set (map toLowerCase allowedFields)) [] (schemaMap_of fieldSchemas)
               else Inr []) (\<lambda>fieldErrors.
     let allErrors = mergeErrors errors fieldErrors in
     if length allErrors > 0 then Inr (SEARCH_QUERY_ERROR None allErrors)
     else
     and_then (transformToExpression st (fst result) (schemaMap_of fieldSchemas)) (\<lambda>expression.
     Inr (SEARCH_QUERY (Some expression))))))))))"

text \<open>\<open>try { ... } catch (error) { return {type: "SEARCH_QUERY_ERROR", expression: null, errors: [error]} }\<close>.\<close>

definition parseSearchInputQuery ::
  "('stream, 'tree) stages \<Rightarrow> string \<Rightarrow> FieldSchema list \<Rightarrow> SearchResult" where
  "parseSearchInputQuery st input fieldSchemas =
     (case parse_try_block st input fieldSchemas of
        Inl error \<Rightarrow> SEARCH_QUERY_ERROR None [error]
      | Inr r \<Rightarrow> r)"

section \<open>The stages that are not among the sources, modelled from the spec\<close>

subsection \<open>Tokenizer (spec, section 4.1)\<close>

text \<open>
  Modelled from the spec: \<open>tokenize\<close>, \<open>createStream\<close> and \<open>currentToken\<close> live in \<open>lexer.ts\<close>,
  which is not among the sources. Section 4.1 of the spec gives the tokenizer as a total
  function that never raises, ends the token sequence with an end-of-input token, discards
  whitespace while counting it, and applies the rules (a) to (f). Where the spec leaves a
  detail open the model takes the plainest reading and says so:
  \<^item> a word character is a character of the field-name pattern (letter, digit, \<open>_\<close>, \<open>-\<close>);
  \<^item> a quoted string runs to the next double quote (the spec names no escape), its text is
    what stands between the quotes, its span includes them;
  \<^item> the value context of rule (c) starts after a colon or a range operator and ends with
    the next token or whitespace;
  \<^item> a word directly followed by \<open>*\<close> is a wildcard fragment whose span includes the star.
\<close>

text \<open>
  Modelled from the spec: the whitespace that the tokenizer discards. The spec does not list
  the characters; they are taken to be those that the class \<open>\s\<close> of a JavaScript regular
  expression matches, among the characters of the model (tab, line feed, vertical tab, form
  feed, carriage return, space, no-break space).
\<close>

definition is_whitespace :: "char \<Rightarrow> bool" where
  "is_whitespace c =
     (c \<in> set [CHR 0x09, CHR 0x0A, CHR 0x0B, CHR 0x0C, CHR 0x0D, CHR 0x20, CHR 0xA0])"

definition is_digit :: "char \<Rightarrow> bool" where
  "is_digit c = in_range CHR ''0'' CHR ''9'' c"

definition is_word_char :: "char \<Rightarrow> bool" where
  "is_word_char c = is_field_char c"

definition starts_with :: "string \<Rightarrow> string \<Rightarrow> bool" where
  "starts_with s t = prefix t s"

text \<open>
  Modelled from the spec: rule (d), the length of the range operator at the head of the
  text, 0 when there is none.
\<close>

definition operator_length :: "string \<Rightarrow> nat" where
  "operator_length s =
     (if starts_with s ''..'' \<or> starts_with s ''>='' \<or> starts_with s ''<='' then 2
      else if starts_with s ''>'' \<or> starts_with s ''<'' then 1
      else 0)"

text \<open>
  Modelled from the spec: rule (c), number. The length of the longest head of the form
  sign, digits, and a point with digits (sign and fraction optional); 0 when the text starts
  with no number.
\<close>

definition number_length :: "string \<Rightarrow> nat" where
  "number_length s =
     (let signed = (starts_with s ''-'' \<or> starts_with s ''+'');
          body = (if signed then tl s else s);
          k = (if signed then 1 else 0);
          ds = takeWhile is_digit body;
          r = drop (length ds) body;
          fs = takeWhile is_digit (tl r)
      in if ds = [] then 0
         else if starts_with r ''.'' \<and> fs \<noteq> [] then k + length ds + 1 + length fs
         else k + length ds)"

text \<open>
  Modelled from the spec: rule (c), ISO date \<open>\d{4}-\d{2}-\d{2}\<close>. 10 when the text starts
  with one, else 0.
\<close>

definition date_length :: "string \<Rightarrow> nat" where
  "date_length s =
     (if length s \<ge> 10
         \<and> list_all is_digit (take 4 s) \<and> s ! 4 = CHR ''-''
         \<and> list_all is_digit (take 2 (drop 5 s)) \<and> s ! 7 = CHR ''-''
         \<and> list_all is_digit (take 2 (drop 8 s))
      then 10 else 0)"

text \<open>
  Modelled from the spec: a number or a date counts when no word character follows it, so
  that a date is not read as the number of its year.
\<close>

definition delimited :: "nat \<Rightarrow> string \<Rightarrow> bool" where
  "delimited n s = (n > 0 \<and> (case drop n s of [] \<Rightarrow> True | c # _ \<Rightarrow> \<not> is_word_char c))"

text \<open>
  Modelled from the spec: what the scanner finds at the head of a text that starts with a
  character which is not whitespace: the kind and text of the token, the number of
  characters it spans, and whether the next token stands in the value context. The cases
  follow the rules of section 4.1: structural characters (e), range operators (d), quoted
  strings, keywords as standalone words (a), field names before a colon (b), the
  disambiguation after a colon (c), and the remaining words (f). A word in front of a
  colon is a field name even when it spells a keyword, as the spec's case \<open>and:foo\<close> needs.
\<close>

record lexeme =
  lex_kind :: TokenType
  lex_text :: string
  lex_length :: nat
  lex_value_next :: bool

definition lexeme_of :: "TokenType \<Rightarrow> string \<Rightarrow> nat \<Rightarrow> bool \<Rightarrow> lexeme" where
  "lexeme_of k t n v = \<lparr>lex_kind = k, lex_text = t, lex_length = n, lex_value_next = v\<rparr>"

definition next_lexeme :: "bool \<Rightarrow> char \<Rightarrow> string \<Rightarrow> lexeme" where
  "next_lexeme in_value c cs =
     (let s = c # cs;
          w = takeWhile is_word_char s;
          after = drop (length w) s;
          content = takeWhile (\<lambda>x. x \<noteq> CHR 0x22) cs
      in if c = CHR ''('' then lexeme_of LPAREN [c] 1 False
         else if c = CHR '')'' then lexeme_of RPAREN [c] 1 False
         else if c = CHR '','' then lexeme_of COMMA [c] 1 False
         else if c = CHR '':'' then lexeme_of COLON [c] 1 True
         else if operator_length s > 0
           then lexeme_of RANGE_OPERATOR (take (operator_length s) s) (operator_length s) True
         else if c = CHR 0x22
           then (if length content < length cs
                 then lexeme_of QUOTED_STRING content (length content + 2) False
                 else lexeme_of MALFORMED content (length s) False)
         else if w \<noteq> [] \<and> toUpperCase w \<in> reservedWords \<and> \<not> starts_with after '':''
           then lexeme_of KEYWORD w (length w) False
         else if w \<noteq> [] \<and> starts_with after '':''
           then lexeme_of FIELD_NAME w (length w) False
         else if in_value \<and> delimited (number_length s) s
           then lexeme_of NUMBER (take (number_length s) s) (number_length s) False
         else if in_value \<and> delimited (date_length s) s
           then lexeme_of DATE (take (date_length s) s) (date_length s) False
         else if in_value \<and> w \<noteq> []
           then lexeme_of BARE_VALUE w (length w) False
         else if w \<noteq> [] \<and> starts_with after ''*''
           then lexeme_of WILDCARD_FRAGMENT w (length w + 1) False
         else if w \<noteq> []
           then lexeme_of IDENTIFIER w (length w) False
         else lexeme_of MALFORMED [c] 1 False)"

definition eof_token :: "nat \<Rightarrow> Token" where
  "eof_token p = \<lparr>position = p, len = 0, type = EOF, text_of = []\<rparr>"

text \<open>
  Modelled from the spec: the scan from offset \<open>p\<close>. Whitespace is skipped and counted,
  every other character starts a token, and the end of the text gives the end-of-input
  token.
\<close>

fun tokenize_from :: "nat \<Rightarrow> bool \<Rightarrow> string \<Rightarrow> Token list" where
  "tokenize_from p in_value [] = [eof_token p]"
| "tokenize_from p in_value (c # cs) =
     (if is_whitespace c then tokenize_from (p + 1) False cs
      else (let x = next_lexeme in_value c cs
            in \<lparr>position = p, len = lex_length x, type = lex_kind x, text_of = lex_text x\<rparr>
               # tokenize_from (p + lex_length x) (lex_value_next x) (drop (lex_length x - 1) cs)))"

definition spec_tokenize :: "string \<Rightarrow> ValidationError + Token list" where
  "spec_tokenize input = Inr (tokenize_from 0 False input)"

text \<open>
  Modelled from the spec: the token stream, of which the spec says only that the parser
  advances over it from left to right. It is the list of the tokens not yet consumed; its
  current token is the first of them, and past the last token it is the end of input.
\<close>

definition spec_createStream :: "Token list \<Rightarrow> ValidationError + Token list" where
  "spec_createStream tokens = Inr tokens"

definition current :: "Token list \<Rightarrow> Token" where
  "current stream = (case stream of [] \<Rightarrow> eof_token 0 | t # _ \<Rightarrow> t)"

definition advance :: "Token list \<Rightarrow> Token list" where
  "advance stream = tl stream"

definition spec_currentToken :: "Token list \<Rightarrow> ValidationError + Token" where
  "spec_currentToken stream = Inr (current stream)"

subsection \<open>Syntax tree and first-pass parser (spec, sections 3, 4.2 and 6)\<close>

text \<open>
  Modelled from the spec: the first-pass syntax tree of \<open>first-pass-parser.ts\<close>, which is
  not among the sources. Section 3 lists the nodes; each carries the start and the length
  of its text (the last two arguments), a field or a value carries those of its token. The
  IN node is the \<open>InExpression\<close> that \<open>validateInExpression\<close> reads.
\<close>

datatype FirstPass =
    FP_SEARCH_TERM string nat nat
  | FP_WILDCARD string bool nat nat
  | FP_FIELD_VALUE Field Value nat nat
  | FP_RANGE Field RangeOperator Value "Value option" nat nat
  | FP_AND FirstPass FirstPass nat nat
  | FP_OR FirstPass FirstPass nat nat
  | FP_NOT FirstPass nat nat
  | FP_IN InExpression

fun node_position :: "FirstPass \<Rightarrow> nat" where
  "node_position (FP_SEARCH_TERM v p l) = p"
| "node_position (FP_WILDCARD v q p l) = p"
| "node_position (FP_FIELD_VALUE f v p l) = p"
| "node_position (FP_RANGE f operator v v2 p l) = p"
| "node_position (FP_AND a b p l) = p"
| "node_position (FP_OR a b p l) = p"
| "node_position (FP_NOT e p l) = p"
| "node_position (FP_IN x) = position x"

fun node_length :: "FirstPass \<Rightarrow> nat" where
  "node_length (FP_SEARCH_TERM v p l) = l"
| "node_length (FP_WILDCARD v q p l) = l"
| "node_length (FP_FIELD_VALUE f v p l) = l"
| "node_length (FP_RANGE f operator v v2 p l) = l"
| "node_length (FP_AND a b p l) = l"
| "node_length (FP_OR a b p l) = l"
| "node_length (FP_NOT e p l) = l"
| "node_length (FP_IN x) = len x"

definition node_end :: "FirstPass \<Rightarrow> nat" where
  "node_end e = node_position e + node_length e"

definition token_end :: "Token \<Rightarrow> nat" where
  "token_end t = position t + len t"

text \<open>
  Modelled from the spec: the single diagnostic of a structural error, which identifies the
  position and the length of the offending token (section 4.2).
\<close>

definition unexpected :: "Token \<Rightarrow> ValidationError" where
  "unexpected t =
     \<lparr>position = position t, len = len t,
      message = ''Unexpected token '' @ text_of t, code = None, evalue = None\<rparr>"

definition word_of :: "Token \<Rightarrow> Value" where
  "word_of t = \<lparr>position = position t, len = len t, value = text_of t\<rparr>"

definition is_keyword :: "string \<Rightarrow> Token \<Rightarrow> bool" where
  "is_keyword w t = (type t = KEYWORD \<and> toUpperCase (text_of t) = w)"

text \<open>
  Modelled from the spec: a \<open>value\<close> or \<open>literal\<close> of the grammar of section 6 is one token
  with a text of its own.
\<close>

definition is_value_token :: "Token \<Rightarrow> bool" where
  "is_value_token t = (type t \<in> {QUOTED_STRING, NUMBER, DATE, BARE_VALUE, IDENTIFIER})"

text \<open>
  Modelled from the spec: \<open>value (',' value)* ')'\<close> of the rule \<open>inList\<close>, the values of an
  IN list and the closing parenthesis.
\<close>

function parse_in_values :: "Token list \<Rightarrow> ValidationError + (string list \<times> Token \<times> Token list)" where
  "parse_in_values [] = Inl (unexpected (current []))"
| "parse_in_values (t # stream) =
     (if \<not> is_value_token t then Inl (unexpected t)
      else if type (current stream) = RPAREN
        then Inr ([text_of t], current stream, advance stream)
      else if type (current stream) = COMMA
        then and_then (parse_in_values (advance stream))
               (\<lambda>(vs, close, after). Inr (text_of t # vs, close, after))
      else Inl (unexpected (current stream)))"
  by pat_completeness auto
termination
  by (relation "measure length") (auto simp: advance_def)

definition range_operator_of :: "string \<Rightarrow> RangeOperator option" where
  "range_operator_of t =
     (if t = ''>='' then Some GE else if t = ''>'' then Some GT
      else if t = ''<='' then Some LE else if t = ''<'' then Some LT else None)"

text \<open>
  Modelled from the spec: what follows a field name and its colon in the rule \<open>atom\<close>,
  that is \<open>rangeVal\<close>, \<open>inList\<close> or \<open>value\<close>. \<open>f\<close> is the field-name token, \<open>stream\<close> starts
  behind the colon. A node spans from the field name to its last token.
\<close>

definition parse_field_rest :: "Token \<Rightarrow> Token list \<Rightarrow> ValidationError + (FirstPass \<times> Token list)" where
  "parse_field_rest f stream =
     (let t = current stream; s1 = advance stream; t1 = current s1; s2 = advance s1; t2 = current s2
      in if is_keyword ''IN'' t
         then (if type t1 = LPAREN
               then and_then (parse_in_values s2) (\<lambda>(vs, close, after).
                      Inr (FP_IN \<lparr>position = position f, len = token_end close - position f,
                                  field = text_of f, values = vs\<rparr>, after))
               else Inl (unexpected t1))
         else if type t = RANGE_OPERATOR
         then (case range_operator_of (text_of t) of
                 None \<Rightarrow> Inl (unexpected t)
               | Some operator \<Rightarrow>
                   if is_value_token t1
                   then Inr (FP_RANGE (word_of f) operator (word_of t1) None
                               (position f) (token_end t1 - position f), s2)
                   else Inl (unexpected t1))
         else if is_value_token t
         then (if type t1 = RANGE_OPERATOR \<and> text_of t1 = ''..''
               then (if is_value_token t2
                     then Inr (FP_RANGE (word_of f) BETWEEN (word_of t) (Some (word_of t2))
                                 (position f) (token_end t2 - position f), advance s2)
                     else Inl (unexpected t2))
               else Inr (FP_FIELD_VALUE (word_of f) (word_of t)
                           (position f) (token_end t - position f), s1))
         else Inl (unexpected t))"

definition binary_node ::
  "(FirstPass \<Rightarrow> FirstPass \<Rightarrow> nat \<Rightarrow> nat \<Rightarrow> FirstPass) \<Rightarrow> FirstPass \<Rightarrow> FirstPass \<Rightarrow> FirstPass" where
  "binary_node node l r = node l r (node_position l) (node_end r - node_position l)"

text \<open>
  Modelled from the spec: the tokens that can start a \<open>unary\<close>; a juxtaposed operand is an
  implicit AND (rule \<open>and\<close> of section 6).
\<close>

definition starts_unary :: "Token \<Rightarrow> bool" where
  "starts_unary t =
     (is_keyword ''NOT'' t
      \<or> type t \<in> {LPAREN, FIELD_NAME, WILDCARD_FRAGMENT, QUOTED_STRING, IDENTIFIER})"

text \<open>
  Modelled from the spec: the recursive descent over the grammar of section 6, one function
  per rule and one for each of the two repetitions. It fails at the first token that does
  not fit, with a diagnostic at that token. The first argument bounds the depth of the
  recursion, as section 4.2 demands; a parse that reaches the bound fails with a structural
  error at the current token.
\<close>

fun parse_or :: "nat \<Rightarrow> Token list \<Rightarrow> ValidationError + (FirstPass \<times> Token list)"
  and parse_or_rest :: "nat \<Rightarrow> FirstPass \<Rightarrow> Token list \<Rightarrow> ValidationError + (FirstPass \<times> Token list)"
  and parse_and :: "nat \<Rightarrow> Token list \<Rightarrow> ValidationError + (FirstPass \<times> Token list)"
  and parse_and_rest :: "nat \<Rightarrow> FirstPass \<Rightarrow> Token list \<Rightarrow> ValidationError + (FirstPass \<times> Token list)"
  and parse_unary :: "nat \<Rightarrow> Token list \<Rightarrow> ValidationError + (FirstPass \<times> Token list)"
  and parse_atom :: "nat \<Rightarrow> Token list \<Rightarrow> ValidationError + (FirstPass \<times> Token list)"
where
  "parse_or 0 stream = Inl (unexpected (current stream))"
| "parse_or (Suc depth) stream =
     and_then (parse_and depth stream) (\<lambda>(l, s). parse_or_rest depth l s)"
| "parse_or_rest 0 l stream = Inl (unexpected (current stream))"
| "parse_or_rest (Suc depth) l stream =
     (if is_keyword ''OR'' (current stream)
      then and_then (parse_and depth (advance stream))
             (\<lambda>(r, s). parse_or_rest depth (binary_node FP_OR l r) s)
      else Inr (l, stream))"
| "parse_and 0 stream = Inl (unexpected (current stream))"
| "parse_and (Suc depth) stream =
     and_then (parse_unary depth stream) (\<lambda>(l, s). parse_and_rest depth l s)"
| "parse_and_rest 0 l stream = Inl (unexpected (current stream))"
| "parse_and_rest (Suc depth) l stream =
     (if is_keyword ''AND'' (current stream)
      then and_then (parse_unary depth (advance stream))
             (\<lambda>(r, s). parse_and_rest depth (binary_node FP_AND l r) s)
      else if starts_unary (current stream)
      then and_then (parse_unary depth stream)
             (\<lambda>(r, s). parse_and_rest depth (binary_node FP_AND l r) s)
      else Inr (l, stream))"
| "parse_unary 0 stream = Inl (unexpected (current stream))"
| "parse_unary (Suc depth) stream =
     (if is_keyword ''NOT'' (current stream)
      then and_then (parse_unary depth (advance stream))
             (\<lambda>(e, s). Inr (FP_NOT e (position (current stream))
                                 (node_end e - position (current stream)), s))
      else parse_atom depth stream)"
| "parse_atom 0 stream = Inl (unexpected (current stream))"
| "parse_atom (Suc depth) stream =
     (let t = current stream
      in if type t = LPAREN
         then and_then (parse_or depth (advance stream))
                (\<lambda>(e, s). if type (current s) = RPAREN then Inr (e, advance s)
                           else Inl (unexpected (current s)))
         else if type t = FIELD_NAME
         then (if type (current (advance stream)) = COLON
               then parse_field_rest t (advance (advance stream))
               else Inl (unexpected (current (advance stream))))
         else if type t = WILDCARD_FRAGMENT
         then Inr (FP_WILDCARD (text_of t) False (position t) (len t), advance stream)
         else if type t = QUOTED_STRING
         then (if text_of t \<noteq> [] \<and> last (text_of t) = CHR ''*''
               then Inr (FP_WILDCARD (butlast (text_of t)) True (position t) (len t), advance stream)
               else Inr (FP_SEARCH_TERM (text_of t) (position t) (len t), advance stream))
         else if type t = IDENTIFIER
         then Inr (FP_SEARCH_TERM (text_of t) (position t) (len t), advance stream)
         else Inl (unexpected t))"

text \<open>
  Modelled from the spec: the bound on the depth of the recursion, which the spec demands
  without giving a number; the model takes six levels for each token of the stream.
\<close>

definition depth_bound :: "Token list \<Rightarrow> nat" where
  "depth_bound stream = 6 * (length stream + 1)"

definition spec_parseExpression :: "Token list \<Rightarrow> ValidationError + (FirstPass \<times> Token list)" where
  "spec_parseExpression stream = parse_or (depth_bound stream) stream"

subsection \<open>Structural validator (spec, section 4.3)\<close>

text \<open>
  Modelled from the spec: \<open>validateSearchQuery\<close> of \<open>validator.ts\<close>, which is not among the
  sources. It walks every node and accumulates; a field-bearing node gets the two field-name
  checks, and an IN node gets them and the check of its values from
  \<open>validateInExpression\<close>, which is among the sources.
\<close>

definition validate_field :: "Field \<Rightarrow> ValidationError list \<Rightarrow> ValidationError list" where
  "validate_field f errors =
     validateInExpression \<lparr>position = position f, len = len f, field = value f, values = []\<rparr> errors"

fun validate_node :: "FirstPass \<Rightarrow> ValidationError list \<Rightarrow> ValidationError list" where
  "validate_node (FP_SEARCH_TERM v p l) errors = errors"
| "validate_node (FP_WILDCARD v q p l) errors = errors"
| "validate_node (FP_FIELD_VALUE f v p l) errors = validate_field f errors"
| "validate_node (FP_RANGE f operator v v2 p l) errors = validate_field f errors"
| "validate_node (FP_AND a b p l) errors = validate_node b (validate_node a errors)"
| "validate_node (FP_OR a b p l) errors = validate_node b (validate_node a errors)"
| "validate_node (FP_NOT e p l) errors = validate_node e errors"
| "validate_node (FP_IN x) errors = validateInExpression x errors"

definition spec_validateSearchQuery :: "FirstPass \<Rightarrow> ValidationError + ValidationError list" where
  "spec_validateSearchQuery tree = Inr (validate_node tree [])"

subsection \<open>Semantic transformer (spec, section 4.6)\<close>

text \<open>
  Modelled from the spec: \<open>transformToExpression\<close> of \<open>transform-to-expression.ts\<close>, which is
  not among the sources: the one-to-one mapping of the nodes of the syntax tree to the
  variants of \<open>Expression\<close>. The type \<open>Expression\<close> of \<open>parser.ts\<close> has no place for type
  metadata, so the schema map changes nothing in the result. A value of an IN list has no
  token in the \<open>InExpression\<close>; its position is the one that \<open>validateInExpression\<close> gives
  its diagnostic.
\<close>

fun transform :: "FirstPass \<Rightarrow> Expression" where
  "transform (FP_SEARCH_TERM v p l) = SEARCH_TERM v p l"
| "transform (FP_WILDCARD v q p l) = WILDCARD v q p l"
| "transform (FP_FIELD_VALUE f v p l) = FIELD_VALUE f v"
| "transform (FP_RANGE f operator v v2 p l) = RANGE f operator v v2 p l"
| "transform (FP_AND a b p l) = AND (transform a) (transform b) p l"
| "transform (FP_OR a b p l) = OR (transform a) (transform b) p l"
| "transform (FP_NOT e p l) = NOT (transform e) p l"
| "transform (FP_IN x) =
     IN \<lparr>position = position x, len = length (field x), value = field x\<rparr>
        (map (\<lambda>(index, v). \<lparr>position = position (invalid_in_value_error x index v),
                              len = length v, value = v\<rparr>)
             (enumerate 0 (values x)))
        (position x) (len x)"

definition spec_transformToExpression ::
  "FirstPass \<Rightarrow> (string \<rightharpoonup> FieldSchema) \<Rightarrow> ValidationError + Expression" where
  "spec_transformToExpression tree schemas = Inr (transform tree)"

subsection \<open>The pipeline of the spec-modelled stages\<close>

text \<open>
  The spec-modelled stages put into the record that \<^const>\<open>parseSearchInputQuery\<close> takes. The
  schema validator (spec, section 4.4) stays a parameter: the spec gives its type rules by
  example only.
\<close>

definition spec_stages ::
  "(FirstPass \<Rightarrow> string set \<Rightarrow> ValidationError list \<Rightarrow> (string \<rightharpoonup> FieldSchema)
      \<Rightarrow> ValidationError + ValidationError list)
   \<Rightarrow> (Token list, FirstPass) stages" where
  "spec_stages schema_validator =
     \<lparr>tokenize = spec_tokenize, createStream = spec_createStream,
      currentToken = spec_currentToken, parseExpression = spec_parseExpression,
      validateSearchQuery = spec_validateSearchQuery,
      validateExpressionFields = schema_validator,
      transformToExpression = spec_transformToExpression\<rparr>"


subsection \<open>The unknown-field rule of the schema validator (spec, section 4.4)\<close>

text \<open>
  Modelled from the spec: \<open>validateExpressionFields\<close> of \<open>validate-expression-fields.ts\<close>,
  which is not among the sources, as far as section 4.4 fixes it: a field-bearing node whose
  field, compared without case, is not in the schema set gets an \<open>UNKNOWN_FIELD\<close> diagnostic
  at the span of the field. The type rules, which the spec gives by example only, are left
  out; this validator serves as the instance of the parameter in the examples below.
\<close>

definition unknown_field :: "string \<Rightarrow> nat \<Rightarrow> nat \<Rightarrow> string set \<Rightarrow> ValidationError list \<Rightarrow> ValidationError list" where
  "unknown_field f p l columnSet errors =
     (if toLowerCase f \<in> columnSet then errors
      else errors @ [\<lparr>position = p, len = l, message = ''Unknown field '' @ f,
                       code = Some UNKNOWN_FIELD, evalue = None\<rparr>])"

fun unknown_fields :: "FirstPass \<Rightarrow> string set \<Rightarrow> ValidationError list \<Rightarrow> ValidationError list" where
  "unknown_fields (FP_SEARCH_TERM v p l) columnSet errors = errors"
| "unknown_fields (FP_WILDCARD v q p l) columnSet errors = errors"
| "unknown_fields (FP_FIELD_VALUE f v p l) columnSet errors =
     unknown_field (value f) (position f) (len f) columnSet errors"
| "unknown_fields (FP_RANGE f operator v v2 p l) columnSet errors =
     unknown_field (value f) (position f) (len f) columnSet errors"
| "unknown_fields (FP_AND a b p l) columnSet errors =
     unknown_fields b columnSet (unknown_fields a columnSet errors)"
| "unknown_fields (FP_OR a b p l) columnSet errors =
     unknown_fields b columnSet (unknown_fields a columnSet errors)"
| "unknown_fields (FP_NOT e p l) columnSet errors = unknown_fields e columnSet errors"
| "unknown_fields (FP_IN x) columnSet errors =
     unknown_field (field x) (position x) (length (field x)) columnSet errors"

definition unknown_field_check ::
  "FirstPass \<Rightarrow> string set \<Rightarrow> ValidationError list \<Rightarrow> (string \<rightharpoonup> FieldSchema)
     \<Rightarrow> ValidationError + ValidationError list" where
  "unknown_field_check tree columnSet fieldErrors schemas = Inr (unknown_fields tree columnSet fieldErrors)"

text \<open>
  The pipeline of the examples: the spec-modelled stages with the unknown-field rule as
  schema validator. \<open>boom\<close> is a value for a stage to throw.
\<close>

definition example_stages :: "(Token list, FirstPass) stages" where
  "example_stages = spec_stages unknown_field_check"

definition boom :: ValidationError where
  "boom = \<lparr>position = 0, len = 0, message = ''boom'', code = None, evalue = None\<rparr>"


text \<open>Any stages with the tokenizer and the stream functions of the spec in their places.\<close>

definition with_spec_lexer :: "(Token list, 'tree) stages \<Rightarrow> (Token list, 'tree) stages" where
  "with_spec_lexer st =
     st\<lparr>tokenize := spec_tokenize, createStream := spec_createStream,
        currentToken := spec_currentToken\<rparr>"


section \<open>Notions used in the statements\<close>

text \<open>A text between two double quotes.\<close>

definition quoted :: "string \<Rightarrow> string" where
  "quoted s = [CHR 0x22] @ s @ [CHR 0x22]"

text \<open>
  The serializer as section 4.7 of the spec words it, to be compared with \<^const>\<open>stringify\<close>:
  a search term and a value of an IN list are quoted when they contain whitespace, and a
  range is written \<open>field:op value\<close>.
\<close>

fun serialize_spec :: "Expression \<Rightarrow> string" where
  "serialize_spec (SEARCH_TERM v p l) = (if list_ex is_whitespace v then quoted v else v)"
| "serialize_spec (WILDCARD pre q p l) = (if q then quoted (pre @ ''*'') else pre @ ''*'')"
| "serialize_spec (FIELD_VALUE f v) = value f @ '':'' @ value v"
| "serialize_spec (RANGE f operator v v2 p l) =
     (if operator = BETWEEN
      then value f @ '':'' @ value v @ ''..'' @
           (case v2 of None \<Rightarrow> ''undefined'' | Some w \<Rightarrow> value w)
      else value f @ '':'' @ operator_text operator @ '' '' @ value v)"
| "serialize_spec (NOT e p l) = ''NOT ('' @ serialize_spec e @ '')''"
| "serialize_spec (AND a b p l) = ''('' @ serialize_spec a @ '' AND '' @ serialize_spec b @ '')''"
| "serialize_spec (OR a b p l) = ''('' @ serialize_spec a @ '' OR '' @ serialize_spec b @ '')''"
| "serialize_spec (IN f vs p l) =
     value f @ '':IN('' @
     join '','' (map (\<lambda>v. if list_ex is_whitespace (value v) then quoted (value v) else value v) vs)
     @ '')''"

text \<open>What a call has pushed: the array after the call without the entries it had before.\<close>

definition appended :: "ValidationError list \<Rightarrow> ValidationError list \<Rightarrow> ValidationError list" where
  "appended before after = drop (length before) after"

text \<open>
  The diagnostics of the values of an IN node: one for each value with a comma, in the order
  of the values.
\<close>

definition in_value_errors :: "InExpression \<Rightarrow> (nat \<times> string) list \<Rightarrow> ValidationError list" where
  "in_value_errors expr ivs =
     map (\<lambda>(index, v). invalid_in_value_error expr index v)
         (filter (\<lambda>(index, v). CHR '','' \<in> set v) ivs)"

text \<open>
  The literal offset of the value number \<open>i\<close> within the rendered list \<open>v0,v1,...\<close>: every
  earlier value and its comma come before it.
\<close>

definition value_offset :: "string list \<Rightarrow> nat \<Rightarrow> nat" where
  "value_offset vs i = sum_list (map (\<lambda>v. length v + 1) (take i vs))"

text \<open>A schema diagnostic collides when a structural one has its position and length.\<close>

definition collides :: "ValidationError list \<Rightarrow> ValidationError \<Rightarrow> bool" where
  "collides errors f = list_ex (\<lambda>error. position error = position f \<and> len error = len f) errors"

text \<open>Reading a decimal text back, the inverse of \<^const>\<open>number_text\<close>.\<close>

definition digit_value :: "char \<Rightarrow> nat" where
  "digit_value c = of_char c - 48"

definition number_value :: "string \<Rightarrow> nat" where
  "number_value s = foldl (\<lambda>acc c. 10 * acc + digit_value c) 0 s"

text \<open>
  The schema diagnostics of a run of \<^const>\<open>parseSearchInputQuery\<close>: none when there is no
  field schema, else what \<open>validateExpressionFields\<close> pushes onto the empty array.
\<close>

definition schema_diagnostics ::
  "('stream, 'tree) stages \<Rightarrow> 'tree \<Rightarrow> FieldSchema list \<Rightarrow> ValidationError + ValidationError list" where
  "schema_diagnostics st tree fieldSchemas =
     (if fieldSchemas = [] then Inr []
      else validateExpressionFields st tree
             (set (map (\<lambda>s. toLowerCase (toLowerCase (name s))) fieldSchemas)) []
             (schemaMap_of fieldSchemas))"

text \<open>
  The token that a failure of the spec-modelled parser blames. Section 4.2 of the spec calls
  it the token that cannot be fitted into the current grammar position. The tokens \<open>pre\<close>
  before it are \<open>viable\<close>: some tokens \<open>c\<close> complete them to an expression, which the parser
  returns in front of every stream that is at the end of input. With the blamed token behind
  \<open>pre\<close> the parser fails, whatever follows.
\<close>

definition viable :: "Token list \<Rightarrow> bool" where
  "viable pre =
     (\<exists>c tree. \<forall>z. type (current z) = EOF \<longrightarrow> spec_parseExpression (pre @ c @ z) = Inr (tree, z))"

text \<open>
  The notions of the proof. \<open>noeof\<close> holds of tokens none of which is the end of input,
  \<open>stops\<close> of a stream that is at a closing parenthesis or at the end of input, \<open>halts\<close> of a
  token that ends the operands of an AND and \<open>halts_or\<close> of one that also ends those of an
  OR. \<open>sample k\<close> is a token of the kind \<open>k\<close>.
\<close>

definition noeof :: "Token list \<Rightarrow> bool" where
  "noeof pre = list_all (\<lambda>t. type t \<noteq> EOF) pre"

definition stops :: "Token list \<Rightarrow> bool" where
  "stops z = (type (current z) = RPAREN \<or> type (current z) = EOF)"

definition dotdot :: "Token \<Rightarrow> bool" where
  "dotdot t = (type t = RANGE_OPERATOR \<and> text_of t = ''..'')"

definition halts :: "Token \<Rightarrow> bool" where
  "halts t = (\<not> is_keyword ''AND'' t \<and> \<not> starts_unary t \<and> \<not> dotdot t)"

definition halts_or :: "Token \<Rightarrow> bool" where
  "halts_or t = (halts t \<and> \<not> is_keyword ''OR'' t)"

definition sample :: "TokenType \<Rightarrow> Token" where
  "sample k = \<lparr>position = 0, len = 1, type = k, text_of = ''x''\<rparr>"

text \<open>
  A parse function \<open>p\<close> takes the depth bound and the stream. The tokens \<open>pre\<close> that it
  consumed are \<open>steady\<close> when they give the same tree in front of every stream \<open>z\<close> whose
  first token is that of the rest or satisfies \<open>h\<close>, at every depth bound from
  \<open>kk + 4 * length pre\<close>. \<open>p\<close> \<open>accepts\<close> at a depth and a stream when what it returns there
  comes from steady tokens at the front of the stream (at least one, if \<open>ne\<close>).
\<close>

definition steady ::
  "(nat \<Rightarrow> Token list \<Rightarrow> ValidationError + ('a \<times> Token list)) \<Rightarrow> (Token \<Rightarrow> bool)
     \<Rightarrow> nat \<Rightarrow> Token list \<Rightarrow> 'a \<Rightarrow> Token list \<Rightarrow> bool" where
  "steady p h kk pre tree rest =
     (\<forall>z d'. kk + 4 * length pre \<le> d' \<longrightarrow> (current z = current rest \<or> h (current z))
        \<longrightarrow> p d' (pre @ z) = Inr (tree, z))"

definition accepts ::
  "(nat \<Rightarrow> Token list \<Rightarrow> ValidationError + ('a \<times> Token list)) \<Rightarrow> (Token \<Rightarrow> bool) \<Rightarrow> bool
     \<Rightarrow> nat \<Rightarrow> nat \<Rightarrow> Token list \<Rightarrow> bool" where
  "accepts p h ne kk d s =
     (\<forall>tree rest. p d s = Inr (tree, rest) \<longrightarrow>
        (\<exists>pre. s = pre @ rest \<and> noeof pre \<and> (ne \<longrightarrow> pre \<noteq> []) \<and> steady p h kk pre tree rest))"

text \<open>
  The tokens \<open>pre\<close> are \<open>completable\<close> for \<open>p\<close> when some tokens \<open>c\<close> behind them make \<open>p\<close>
  return in front of every stream that stops. A failure \<open>e\<close> of \<open>p\<close> on the stream \<open>s\<close> is
  \<open>located\<close> when \<open>s\<close> splits into completable tokens \<open>pre\<close> and a rest whose first token
  \<open>e\<close> blames, and \<open>p\<close> fails with \<open>e\<close> on \<open>pre\<close> in front of every stream with that first token,
  at every depth bound from \<open>kk + 4 * length pre\<close>. \<open>p\<close> \<open>blames\<close> at a depth of at least
  \<open>kk + 4 * length s\<close> and the stream \<open>s\<close> when every failure there is located: the depth
  bound is not what makes it fail.
\<close>

definition completable ::
  "(nat \<Rightarrow> Token list \<Rightarrow> ValidationError + ('a \<times> Token list)) \<Rightarrow> nat \<Rightarrow> Token list \<Rightarrow> bool" where
  "completable p kk pre =
     (\<exists>c tree. \<forall>d' z. kk + 4 * length (pre @ c) \<le> d' \<longrightarrow> stops z
        \<longrightarrow> p d' (pre @ c @ z) = Inr (tree, z))"

definition located ::
  "(nat \<Rightarrow> Token list \<Rightarrow> ValidationError + ('a \<times> Token list)) \<Rightarrow> nat \<Rightarrow> Token list
     \<Rightarrow> ValidationError \<Rightarrow> bool" where
  "located p kk s e =
     (\<exists>pre post. s = pre @ post \<and> noeof pre \<and> e = unexpected (current post)
        \<and> (\<forall>z d'. kk + 4 * length pre \<le> d' \<longrightarrow> current z = current post
              \<longrightarrow> p d' (pre @ z) = Inl e)
        \<and> completable p kk pre)"

definition blames ::
  "(nat \<Rightarrow> Token list \<Rightarrow> ValidationError + ('a \<times> Token list)) \<Rightarrow> nat \<Rightarrow> nat \<Rightarrow> Token list \<Rightarrow> bool" where
  "blames p kk d s = (kk + 4 * length s \<le> d \<longrightarrow> (\<forall>e. p d s = Inl e \<longrightarrow> located p kk s e))"

text \<open>
  The two invariants of the six functions of the parser at the depth \<open>d\<close>, with the least
  depth bound that each of them needs in front of the end of input.
\<close>

definition all_accept :: "nat \<Rightarrow> bool" where
  "all_accept d =
     ((\<forall>s. accepts parse_or halts_or True 4 d s)
      \<and> (\<forall>l s. accepts (\<lambda>d. parse_or_rest d l) halts_or False 1 d s)
      \<and> (\<forall>s. accepts parse_and halts True 3 d s)
      \<and> (\<forall>l s. accepts (\<lambda>d. parse_and_rest d l) halts False 3 d s)
      \<and> (\<forall>s. accepts parse_unary halts True 2 d s)
      \<and> (\<forall>s. accepts parse_atom halts True 1 d s))"

definition all_blame :: "nat \<Rightarrow> bool" where
  "all_blame d =
     ((\<forall>s. blames parse_or 4 d s)
      \<and> (\<forall>l s. blames (\<lambda>d. parse_or_rest d l) 1 d s)
      \<and> (\<forall>s. blames parse_and 3 d s)
      \<and> (\<forall>l s. blames (\<lambda>d. parse_and_rest d l) 3 d s)
      \<and> (\<forall>s. blames parse_unary 2 d s)
      \<and> (\<forall>s. blames parse_atom 1 d s))"

text \<open>
  Structural equality of two expressions: equality up to the positions and lengths, which
  depend on the text that was parsed. \<open>erase_positions\<close> sets them all to 0.
\<close>

definition erase_value :: "Value \<Rightarrow> Value" where
  "erase_value v = \<lparr>position = 0, len = 0, value = value v\<rparr>"

fun erase_positions :: "Expression \<Rightarrow> Expression" where
  "erase_positions (SEARCH_TERM v p l) = SEARCH_TERM v 0 0"
| "erase_positions (WILDCARD pre q p l) = WILDCARD pre q 0 0"
| "erase_positions (FIELD_VALUE f v) = FIELD_VALUE (erase_value f) (erase_value v)"
| "erase_positions (RANGE f operator v v2 p l) =
     RANGE (erase_value f) operator (erase_value v) (map_option erase_value v2) 0 0"
| "erase_positions (NOT e p l) = NOT (erase_positions e) 0 0"
| "erase_positions (AND a b p l) = AND (erase_positions a) (erase_positions b) 0 0"
| "erase_positions (OR a b p l) = OR (erase_positions a) (erase_positions b) 0 0"
| "erase_positions (IN f vs p l) = IN (erase_value f) (map erase_value vs) 0 0"

definition structurally_equal :: "Expression \<Rightarrow> Expression \<Rightarrow> bool" where
  "structurally_equal a b = (erase_positions a = erase_positions b)"

section \<open>Properties of the serializer\<close>

lemma includes_single: "includes s [c] \<longleftrightarrow> c \<in> set s"
  by (induction s) auto

lemma quote_if_space_eq: "quote_if_space v = (if CHR 0x20 \<in> set v then quoted v else v)"
  by (simp add: quote_if_space_def includes_single quoted_def)

text \<open>
  Claim C5, as amended. \<open>stringify\<close> renders every variant by a fixed rule: a search term
  is put between double quotes exactly when it contains the space character (code 32); a
  wildcard is its prefix followed by \<open>*\<close>, the whole between quotes when the \<open>quoted\<close> flag
  is set; a field/value pair is \<open>field:value\<close>; a \<open>BETWEEN\<close> range with a second bound is
  \<open>field:value..value2\<close>, and any other range is the field, a colon, the operator and the
  value with nothing between operator and value; \<open>NOT\<close> is \<open>NOT (inner)\<close>; \<open>AND\<close> and \<open>OR\<close>
  put both operands in one pair of parentheses; \<open>IN\<close> is \<open>field:IN(v1,v2,...)\<close>, each value
  quoted by the rule of search terms.
\<close>

theorem stringify_rules:
  "stringify (SEARCH_TERM v p l) = (if CHR 0x20 \<in> set v then quoted v else v)
 \<and> stringify (WILDCARD pre q p l) = (if q then quoted (pre @ ''*'') else pre @ ''*'')
 \<and> stringify (FIELD_VALUE f w) = value f @ '':'' @ value w
 \<and> stringify (RANGE f BETWEEN w (Some w2) p l) = value f @ '':'' @ value w @ ''..'' @ value w2
 \<and> stringify (RANGE f GE w v2 p l) = value f @ '':>='' @ value w
 \<and> stringify (RANGE f GT w v2 p l) = value f @ '':>'' @ value w
 \<and> stringify (RANGE f LE w v2 p l) = value f @ '':<='' @ value w
 \<and> stringify (RANGE f LT w v2 p l) = value f @ '':<'' @ value w
 \<and> stringify (NOT e p l) = ''NOT ('' @ stringify e @ '')''
 \<and> stringify (AND a b p l) = ''('' @ stringify a @ '' AND '' @ stringify b @ '')''
 \<and> stringify (OR a b p l) = ''('' @ stringify a @ '' OR '' @ stringify b @ '')''
 \<and> stringify (IN f vs p l) =
       value f @ '':IN('' @
       join '','' (map (\<lambda>x. if CHR 0x20 \<in> set (value x) then quoted (value x) else value x) vs)
       @ '')''"
  by (simp add: quote_if_space_eq quoted_def)

text \<open>
  The rules at work on \<open>("foo bar" AND NOT (tag:IN(a,"b c")))\<close> and on the range
  \<open>price:10..50\<close>.
\<close>

theorem stringify_rules_witness:
  "stringify (AND (SEARCH_TERM ''foo bar'' 0 9)
                  (NOT (IN \<lparr>position = 18, len = 3, value = ''tag''\<rparr>
                           [\<lparr>position = 25, len = 1, value = ''a''\<rparr>,
                            \<lparr>position = 27, len = 5, value = ''b c''\<rparr>] 18 15) 14 19) 0 33)
     = ''('' @ quoted ''foo bar'' @ '' AND NOT (tag:IN(a,'' @ quoted ''b c'' @ '')))''
 \<and> stringify (RANGE \<lparr>position = 0, len = 5, value = ''price''\<rparr> BETWEEN
                     \<lparr>position = 6, len = 2, value = ''10''\<rparr>
                     (Some \<lparr>position = 10, len = 2, value = ''50''\<rparr>) 0 12)
     = ''price:10..50''"
  using stringify_rules [of "''foo bar''" 0 9 "''''" False
      "\<lparr>position = 0, len = 5, value = ''price''\<rparr>" "\<lparr>position = 6, len = 2, value = ''10''\<rparr>"
      "\<lparr>position = 10, len = 2, value = ''50''\<rparr>"]
  by (simp add: quote_if_space_eq quoted_def)

text \<open>
  Claim C5 as the spec words it fails twice. The search term \<open>a<TAB>b\<close> contains
  whitespace and is rendered without quotes, and the range \<open>price >= 10\<close> is rendered
  \<open>price:>=10\<close>, not \<open>price:>= 10\<close>.
\<close>

theorem stringify_rules_counterexample:
  "stringify (SEARCH_TERM [CHR ''a'', CHR 0x09, CHR ''b''] 0 5)
     \<noteq> serialize_spec (SEARCH_TERM [CHR ''a'', CHR 0x09, CHR ''b''] 0 5)
 \<and> stringify (RANGE \<lparr>position = 0, len = 5, value = ''price''\<rparr> GE
                     \<lparr>position = 8, len = 2, value = ''10''\<rparr> None 0 10)
     \<noteq> serialize_spec (RANGE \<lparr>position = 0, len = 5, value = ''price''\<rparr> GE
                     \<lparr>position = 8, len = 2, value = ''10''\<rparr> None 0 10)"
  by (simp add: quote_if_space_eq quoted_def is_whitespace_def)

text \<open>
  Claim C10. \<open>stringify\<close> writes a field/value pair as the field, a colon and the value and
  adds no quotation mark, also when the value contains a space (\<open>title:foo bar\<close>). The test
  that decides the quoting of a search term and of the values of an IN list is the presence
  of the space character (code 32) alone: a term with a tab and no space is not quoted.
\<close>

theorem stringify_quoting:
  "stringify (FIELD_VALUE f w) = value f @ '':'' @ value w
 \<and> stringify (FIELD_VALUE \<lparr>position = 0, len = 5, value = ''title''\<rparr>
                           \<lparr>position = 6, len = 9, value = ''foo bar''\<rparr>) = ''title:foo bar''
 \<and> stringify (SEARCH_TERM v p l) = (if CHR 0x20 \<in> set v then quoted v else v)
 \<and> stringify (IN f vs p l) =
       value f @ '':IN('' @
       join '','' (map (\<lambda>x. if CHR 0x20 \<in> set (value x) then quoted (value x) else value x) vs)
       @ '')''
 \<and> stringify (SEARCH_TERM [CHR ''a'', CHR 0x09, CHR ''b''] 0 5) = [CHR ''a'', CHR 0x09, CHR ''b'']
 \<and> stringify (IN \<lparr>position = 0, len = 1, value = ''f''\<rparr>
                  [\<lparr>position = 5, len = 5, value = [CHR ''a'', CHR 0x09, CHR ''b'']\<rparr>] 0 11)
     = ''f:IN('' @ [CHR ''a'', CHR 0x09, CHR ''b''] @ '')''"
  by (simp add: quote_if_space_eq quoted_def)

text \<open>The quoting rule on a term with a space and on a term without.\<close>

theorem stringify_quoting_witness:
  "stringify (SEARCH_TERM ''foo bar'' 0 9) = quoted ''foo bar''
 \<and> stringify (SEARCH_TERM ''foobar'' 0 6) = ''foobar''"
  using stringify_quoting [of _ _ "''foo bar''" 0 9] stringify_quoting [of _ _ "''foobar''" 0 6]
  by simp

section \<open>Properties of \<open>validateInExpression\<close>\<close>

lemma fold_in_values:
  "fold (\<lambda>(index, v) errs.
           if includes v '','' then errs @ [invalid_in_value_error expr index v] else errs) ivs acc
   = acc @ in_value_errors expr ivs"
  by (induction ivs arbitrary: acc) (auto simp: in_value_errors_def includes_single)

lemma validateInExpression_eq:
  "validateInExpression expr errors =
     errors
     @ (if field_pattern_test (field expr) then [] else [invalid_field_chars_error expr])
     @ (if toUpperCase (field expr) \<in> reservedWords then [reserved_word_error expr] else [])
     @ in_value_errors expr (enumerate 0 (values expr))"
  by (simp add: validateInExpression_def Let_def fold_in_values)

lemma code_in_value_errors:
  "e \<in> set (in_value_errors expr ivs) \<Longrightarrow> code e = Some INVALID_IN_VALUE"
  by (auto simp: in_value_errors_def invalid_in_value_error_def)

lemma filter_in_value_errors_same:
  "filter (\<lambda>e. code e = Some INVALID_IN_VALUE) (in_value_errors expr ivs) = in_value_errors expr ivs"
  by (rule filter_True) (simp add: code_in_value_errors)

lemma filter_in_value_errors_other:
  "c \<noteq> Some INVALID_IN_VALUE \<Longrightarrow> filter (\<lambda>e. code e = c) (in_value_errors expr ivs) = []"
  by (auto simp: filter_empty_conv dest: code_in_value_errors)

lemma value_offset_same_length:
  "index \<le> length vs \<Longrightarrow> \<forall>w \<in> set (take index vs). length w = n \<Longrightarrow>
   value_offset vs index = index * (n + 1)"
proof (induction index arbitrary: vs)
  case 0
  then show ?case by (simp add: value_offset_def)
next
  case (Suc i)
  then obtain w ws where vs: "vs = w # ws" by (cases vs) auto
  with Suc.prems have "i \<le> length ws" "\<forall>x \<in> set (take i ws). length x = n" "length w = n"
    by auto
  with Suc.IH[of ws] vs show ?case by (simp add: value_offset_def)
qed

lemma join_Cons: "join sep (x # xs) = (if xs = [] then x else x @ sep @ join sep xs)"
  by (cases xs) auto

text \<open>
  \<^const>\<open>value_offset\<close> is the place of a value in the rendered list: the value number \<open>i\<close>
  is read back from the joined text at that offset.
\<close>

lemma join_offset:
  "i < length vs \<Longrightarrow>
   take (length (vs ! i)) (drop (value_offset vs i) (join '','' vs)) = vs ! i"
proof (induction vs arbitrary: i)
  case Nil
  then show ?case by simp
next
  case (Cons x xs)
  show ?case
  proof (cases i)
    case 0
    then show ?thesis by (simp add: value_offset_def join_Cons)
  next
    case (Suc j)
    with Cons.prems have j: "j < length xs" by simp
    then have "xs \<noteq> []" by auto
    then have "drop (value_offset (x # xs) i) (join '','' (x # xs))
             = drop (value_offset xs j) (join '','' xs)"
      using Suc by (simp add: value_offset_def join_Cons)
    with Cons.IH[OF j] Suc show ?thesis by simp
  qed
qed

text \<open>
  Claim C7, as amended. \<open>validateInExpression\<close> keeps the diagnostics it is given and
  pushes an \<open>INVALID_IN_VALUE\<close> diagnostic for each listed value that contains a comma, in
  the order of the values, and for no other value. The diagnostic of the value \<open>v\<close> at index
  \<open>index\<close> has the length of \<open>v\<close> and the position
  \<open>expr.position + expr.field.length + 3 + index * (v.length + 1)\<close>. That position is the
  node's start plus the field length plus 3 plus the literal offset of the value within the
  rendered list whenever every earlier value is as long as \<open>v\<close>.
\<close>

theorem in_value_diagnostics:
  "take (length errors) (validateInExpression expr errors) = errors
 \<and> filter (\<lambda>e. code e = Some INVALID_IN_VALUE) (appended errors (validateInExpression expr errors))
     = map (\<lambda>(index, v). invalid_in_value_error expr index v)
           (filter (\<lambda>(index, v). CHR '','' \<in> set v) (enumerate 0 (values expr)))
 \<and> position (invalid_in_value_error expr index v)
     = position expr + length (field expr) + 3 + index * (length v + 1)
 \<and> len (invalid_in_value_error expr index v) = length v
 \<and> (index \<le> length (values expr) \<and> (\<forall>w \<in> set (take index (values expr)). length w = length v)
      \<longrightarrow> position (invalid_in_value_error expr index v)
            = position expr + length (field expr) + 3 + value_offset (values expr) index)"
proof -
  have "take (length errors) (validateInExpression expr errors) = errors"
    by (simp add: validateInExpression_eq)
  moreover
  have "filter (\<lambda>e. code e = Some INVALID_IN_VALUE) (appended errors (validateInExpression expr errors))
     = in_value_errors expr (enumerate 0 (values expr))"
    by (simp add: validateInExpression_eq appended_def filter_in_value_errors_same
          invalid_field_chars_error_def reserved_word_error_def)
  moreover
  have "position (invalid_in_value_error expr index v)
     = position expr + length (field expr) + 3 + index * (length v + 1)"
    and "len (invalid_in_value_error expr index v) = length v"
    by (simp_all add: invalid_in_value_error_def)
  moreover
  have "index \<le> length (values expr) \<and> (\<forall>w \<in> set (take index (values expr)). length w = length v)
      \<longrightarrow> position (invalid_in_value_error expr index v)
            = position expr + length (field expr) + 3 + value_offset (values expr) index"
    using value_offset_same_length [of index "values expr" "length v"]
    by (simp add: invalid_in_value_error_def)
  ultimately show ?thesis
    by (simp only: in_value_errors_def simp_thms)
qed

text \<open>
  The node \<open>tag:IN(x,y,ab,c,d)\<close> at position 0 with the three listed values \<open>x,y\<close>, \<open>ab\<close>
  and \<open>c,d\<close>: the first and the third value get a diagnostic.
\<close>

theorem in_value_diagnostics_witness:
  "filter (\<lambda>e. code e = Some INVALID_IN_VALUE)
     (appended [] (validateInExpression
        \<lparr>position = 0, len = 18, field = ''tag'', values = [''x,y'', ''ab'', ''c,d'']\<rparr> []))
   = [\<lparr>position = 6, len = 3, message = ''Invalid character in IN value'',
        code = Some INVALID_IN_VALUE, evalue = None\<rparr>,
      \<lparr>position = 14, len = 3, message = ''Invalid character in IN value'',
        code = Some INVALID_IN_VALUE, evalue = None\<rparr>]
 \<and> position (invalid_in_value_error
        \<lparr>position = 0, len = 18, field = ''tag'', values = [''x,y'', ''u,v'', ''c,d'']\<rparr> 2 ''c,d'')
   = 0 + length ''tag'' + 3 + value_offset [''x,y'', ''u,v'', ''c,d''] 2"
  using in_value_diagnostics
      [of "[]" "\<lparr>position = 0, len = 18, field = ''tag'', values = [''x,y'', ''ab'', ''c,d'']\<rparr>" 0 "''''"]
    in_value_diagnostics
      [of "[]" "\<lparr>position = 0, len = 18, field = ''tag'', values = [''x,y'', ''u,v'', ''c,d'']\<rparr>"
          2 "''c,d''"]
  by (simp add: invalid_in_value_error_def)

text \<open>
  Claim C7 as the spec words it fails: the position is not a function of the node's start,
  the field length and the literal offset of the value. The nodes \<open>tag:IN(aaa,x,y)\<close> and
  \<open>tag:IN(a,b,x,y)\<close> have the same start and field, and the value \<open>x,y\<close> stands at the same
  literal offset 4 of both rendered lists, yet the two diagnostics have the positions 10
  and 14.
\<close>

theorem in_value_diagnostics_counterexample:
  "value_offset [''aaa'', ''x,y''] 1 = value_offset [''a'', ''b'', ''x,y''] 2
 \<and> map position (validateInExpression
        \<lparr>position = 0, len = 15, field = ''tag'', values = [''aaa'', ''x,y'']\<rparr> []) = [10]
 \<and> map position (validateInExpression
        \<lparr>position = 0, len = 15, field = ''tag'', values = [''a'', ''b'', ''x,y'']\<rparr> []) = [14]"
proof -
  have "value_offset [''aaa'', ''x,y''] 1 = value_offset [''a'', ''b'', ''x,y''] 2"
    by (simp add: value_offset_def)
  moreover
  have "field_pattern_test ''tag''"
    by (simp add: is_letter_def is_field_char_def in_range_def)
  moreover
  have "toUpperCase ''tag'' \<notin> reservedWords"
    by (simp add: toUpperCase_def toUpperCase_char_def reservedWords_def)
  ultimately show ?thesis
    by (simp add: validateInExpression_eq in_value_errors_def invalid_in_value_error_def)
qed

text \<open>
  Claim C8. \<open>validateInExpression\<close> pushes one \<open>INVALID_FIELD_CHARS\<close> diagnostic exactly
  when the field name does not match \<open>^[a-zA-Z][a-zA-Z0-9_-]*$\<close> (a letter, then letters,
  digits, underscores and hyphens only), and one \<open>RESERVED_WORD_AS_FIELD\<close> diagnostic exactly
  when the upper-cased field name is one of AND, OR, NOT, IN, whatever the case of the field
  name. It is a total function on its arguments: no statement of it throws, and it keeps
  the diagnostics it was given.
\<close>

theorem field_name_diagnostics:
  "filter (\<lambda>e. code e = Some INVALID_FIELD_CHARS) (appended errors (validateInExpression expr errors))
     = (if field_pattern_test (field expr) then [] else [invalid_field_chars_error expr])
 \<and> (field_pattern_test (field expr) \<longleftrightarrow>
      (\<exists>c cs. field expr = c # cs \<and> is_letter c \<and> (\<forall>x \<in> set cs. is_field_char x)))
 \<and> filter (\<lambda>e. code e = Some RESERVED_WORD_AS_FIELD) (appended errors (validateInExpression expr errors))
     = (if toUpperCase (field expr) \<in> {''AND'', ''OR'', ''NOT'', ''IN''}
        then [reserved_word_error expr] else [])
 \<and> take (length errors) (validateInExpression expr errors) = errors"
proof -
  have "field_pattern_test s \<longleftrightarrow> (\<exists>c cs. s = c # cs \<and> is_letter c \<and> (\<forall>x \<in> set cs. is_field_char x))"
    for s by (cases s) (auto simp: list_all_iff)
  then show ?thesis
    by (simp add: validateInExpression_eq appended_def filter_in_value_errors_other
          invalid_field_chars_error_def reserved_word_error_def reservedWords_def)
qed

text \<open>
  The nodes \<open>and:IN(a)\<close> and \<open>9x:IN(a)\<close>: the first gets the reserved-word diagnostic alone
  (the spec's \<open>and:foo\<close> case), the second the diagnostic of the field characters alone.
\<close>

theorem field_name_diagnostics_witness:
  "validateInExpression \<lparr>position = 0, len = 9, field = ''and'', values = [''a'']\<rparr> []
     = [\<lparr>position = 0, len = 3, message = ''and is a reserved word'',
          code = Some RESERVED_WORD_AS_FIELD, evalue = Some ''and''\<rparr>]
 \<and> validateInExpression \<lparr>position = 0, len = 8, field = ''9x'', values = [''a'']\<rparr> []
     = [\<lparr>position = 0, len = 2, message = ''Invalid characters in field name'',
          code = Some INVALID_FIELD_CHARS, evalue = None\<rparr>]
 \<and> field_pattern_test ''a-b_9''"
  using field_name_diagnostics
      [of "[]" "\<lparr>position = 0, len = 9, field = ''and'', values = [''a'']\<rparr>"]
  by (simp add: validateInExpression_eq in_value_errors_def
        invalid_field_chars_error_def reserved_word_error_def
        is_letter_def is_field_char_def in_range_def toUpperCase_def toUpperCase_char_def
        reservedWords_def)

section \<open>Properties of the error merge\<close>

lemma digit_char_not_dash: "d < 10 \<Longrightarrow> digit_char d \<noteq> CHR ''-''"
proof -
  assume "d < 10"
  then have "d \<in> {0,1,2,3,4,5,6,7,8,9}" by auto
  then show ?thesis by (auto simp: digit_char_def)
qed

lemma number_text_no_dash: "CHR ''-'' \<notin> set (number_text n)"
proof (induction n rule: number_text.induct)
  case (1 n)
  show ?case
  proof (cases "n < 10")
    case True
    then show ?thesis using digit_char_not_dash[of n] by (subst number_text.simps) auto
  next
    case False
    have "n mod 10 < 10" by simp
    then have "digit_char (n mod 10) \<noteq> CHR ''-''" by (rule digit_char_not_dash)
    with False 1 show ?thesis by (subst number_text.simps) auto
  qed
qed

lemma digit_value_digit_char: "d < 10 \<Longrightarrow> digit_value (digit_char d) = d"
proof -
  assume "d < 10"
  then have "d \<in> {0,1,2,3,4,5,6,7,8,9}" by auto
  then show ?thesis by (auto simp: digit_char_def digit_value_def)
qed

lemma number_value_text: "number_value (number_text n) = n"
proof (induction n rule: number_text.induct)
  case (1 n)
  show ?case
  proof (cases "n < 10")
    case True
    then show ?thesis
      by (subst number_text.simps) (simp add: number_value_def digit_value_digit_char)
  next
    case False
    with 1 have ih: "number_value (number_text (n div 10)) = n div 10" by simp
    have "number_value (number_text n)
        = 10 * number_value (number_text (n div 10)) + digit_value (digit_char (n mod 10))"
      using False by (subst number_text.simps) (simp add: number_value_def)
    also have "\<dots> = 10 * (n div 10) + n mod 10"
      by (simp add: ih digit_value_digit_char)
    finally show ?thesis by simp
  qed
qed

lemma number_text_inj: "number_text a = number_text b \<Longrightarrow> a = b"
  by (metis number_value_text)

lemma split_at_first_dash:
  "x \<notin> set a \<Longrightarrow> x \<notin> set c \<Longrightarrow> a @ x # b = c @ x # d \<Longrightarrow> a = c \<and> b = d"
proof (induction a arbitrary: c)
  case Nil
  then show ?case by (cases c) auto
next
  case (Cons y ys)
  then show ?case by (cases c) auto
qed

text \<open>Two diagnostics have the same key exactly when they have the same position and length.\<close>

lemma error_key_eq_iff:
  "error_key e = error_key f \<longleftrightarrow> position e = position f \<and> len e = len f"
proof
  assume "error_key e = error_key f"
  then have "number_text (position e) @ CHR ''-'' # number_text (len e)
           = number_text (position f) @ CHR ''-'' # number_text (len f)"
    by (simp add: error_key_def)
  then have "number_text (position e) = number_text (position f)
           \<and> number_text (len e) = number_text (len f)"
    by (rule split_at_first_dash[OF number_text_no_dash number_text_no_dash])
  then show "position e = position f \<and> len e = len f"
    by (auto dest: number_text_inj)
next
  assume "position e = position f \<and> len e = len f"
  then show "error_key e = error_key f" by (simp add: error_key_def)
qed

lemma fieldErrorsFiltered_eq:
  "filter (\<lambda>f. \<not> list_ex (\<lambda>error. position error = position f \<and> len error = len f)
                   (filter (\<lambda>e. List.member (map error_key fieldErrors) (error_key e)) errors))
          fieldErrors
   = filter (\<lambda>f. \<not> collides errors f) fieldErrors"
proof (rule filter_cong[OF refl])
  fix f assume f: "f \<in> set fieldErrors"
  have "\<And>e. e \<in> set errors \<Longrightarrow> position e = position f \<and> len e = len f \<Longrightarrow>
          error_key e \<in> set (map error_key fieldErrors)"
    using f error_key_eq_iff by (metis image_eqI list.set_map)
  then show "(\<not> list_ex (\<lambda>error. position error = position f \<and> len error = len f)
                   (filter (\<lambda>e. List.member (map error_key fieldErrors) (error_key e)) errors))
      = (\<not> collides errors f)"
    by (auto simp: list_ex_iff collides_def)
qed

lemma mergeErrors_eq:
  "mergeErrors errors fieldErrors =
     sort_key position (errors @ filter (\<lambda>f. \<not> collides errors f) fieldErrors)"
  unfolding mergeErrors_def Let_def by (simp only: fieldErrorsFiltered_eq)

text \<open>
  Claim C3. The merge drops every schema diagnostic that has the position and length of
  some structural diagnostic and keeps every structural diagnostic. The returned list holds
  exactly the structural diagnostics and the surviving schema diagnostics (as a multiset),
  it is sorted ascending by position, and diagnostics of equal position stand in their
  order of discovery: the structural ones first, then the schema ones, each group in its
  original order.
\<close>

theorem mergeErrors_spec:
  "mergeErrors errors fieldErrors =
     sort_key position (errors @ filter (\<lambda>f. \<not> collides errors f) fieldErrors)
 \<and> sorted (map position (mergeErrors errors fieldErrors))
 \<and> mset (mergeErrors errors fieldErrors) =
     mset errors + mset (filter (\<lambda>f. \<not> collides errors f) fieldErrors)
 \<and> filter (\<lambda>e. position e = k) (mergeErrors errors fieldErrors) =
     filter (\<lambda>e. position e = k) errors @
     filter (\<lambda>e. position e = k) (filter (\<lambda>f. \<not> collides errors f) fieldErrors)"
proof -
  have eq: "mergeErrors errors fieldErrors =
     sort_key position (errors @ filter (\<lambda>f. \<not> collides errors f) fieldErrors)"
    by (rule mergeErrors_eq)
  show ?thesis
    unfolding eq by (simp add: sort_key_stable)
qed

text \<open>
  Two structural diagnostics at \<open>(7, 2)\<close> and \<open>(0, 3)\<close> and three schema diagnostics at
  \<open>(0, 3)\<close>, \<open>(7, 5)\<close> and \<open>(4, 1)\<close>: the schema diagnostic at \<open>(0, 3)\<close> is dropped, the one at
  \<open>(7, 5)\<close> stays behind the structural diagnostic of the same position.
\<close>

theorem mergeErrors_spec_witness:
  "mergeErrors
     [\<lparr>position = 7, len = 2, message = ''s1'', code = Some INVALID_IN_VALUE, evalue = None\<rparr>,
      \<lparr>position = 0, len = 3, message = ''s2'', code = Some INVALID_FIELD_CHARS, evalue = None\<rparr>]
     [\<lparr>position = 0, len = 3, message = ''f1'', code = Some UNKNOWN_FIELD, evalue = None\<rparr>,
      \<lparr>position = 7, len = 5, message = ''f2'', code = Some TYPE_MISMATCH, evalue = None\<rparr>,
      \<lparr>position = 4, len = 1, message = ''f3'', code = Some UNKNOWN_FIELD, evalue = None\<rparr>]
   = [\<lparr>position = 0, len = 3, message = ''s2'', code = Some INVALID_FIELD_CHARS, evalue = None\<rparr>,
      \<lparr>position = 4, len = 1, message = ''f3'', code = Some UNKNOWN_FIELD, evalue = None\<rparr>,
      \<lparr>position = 7, len = 2, message = ''s1'', code = Some INVALID_IN_VALUE, evalue = None\<rparr>,
      \<lparr>position = 7, len = 5, message = ''f2'', code = Some TYPE_MISMATCH, evalue = None\<rparr>]"
  using mergeErrors_spec
     [of "[\<lparr>position = 7, len = 2, message = ''s1'', code = Some INVALID_IN_VALUE, evalue = None\<rparr>,
           \<lparr>position = 0, len = 3, message = ''s2'', code = Some INVALID_FIELD_CHARS, evalue = None\<rparr>]"
         "[\<lparr>position = 0, len = 3, message = ''f1'', code = Some UNKNOWN_FIELD, evalue = None\<rparr>,
           \<lparr>position = 7, len = 5, message = ''f2'', code = Some TYPE_MISMATCH, evalue = None\<rparr>,
           \<lparr>position = 4, len = 1, message = ''f3'', code = Some UNKNOWN_FIELD, evalue = None\<rparr>]" 0]
  by (simp add: collides_def)

section \<open>Properties of the spec-modelled tokenizer and parser\<close>

lemma and_then_Inl [simp]: "and_then (Inl e) f = Inl e"
  by (simp add: and_then_def)

lemma and_then_Inr [simp]: "and_then (Inr r) f = f r"
  by (simp add: and_then_def)

lemma and_then_eq_Inr: "and_then c f = Inr y \<longleftrightarrow> (\<exists>r. c = Inr r \<and> f r = Inr y)"
  by (cases c) auto

lemma and_then_eq_Inl: "and_then c f = Inl e \<longleftrightarrow> c = Inl e \<or> (\<exists>r. c = Inr r \<and> f r = Inl e)"
  by (cases c) auto


lemma tokenize_whitespace:
  "list_all is_whitespace s \<Longrightarrow> tokenize_from p v s = [eof_token (p + length s)]"
  by (induction s arbitrary: p v) simp_all

lemma next_lexeme_not_eof: "lex_kind (next_lexeme v c cs) \<noteq> EOF"
  by (simp add: next_lexeme_def Let_def lexeme_of_def)

lemma tokenize_first_not_eof:
  "\<not> list_all is_whitespace s \<Longrightarrow> type (current (tokenize_from p v s)) \<noteq> EOF"
proof (induction s arbitrary: p v)
  case Nil
  then show ?case by simp
next
  case (Cons c cs)
  show ?case
  proof (cases "is_whitespace c")
    case True
    with Cons show ?thesis by simp
  next
    case False
    then show ?thesis
      by (simp add: Let_def current_def next_lexeme_not_eof)
  qed
qed

lemma first_token_eof_iff:
  "type (current (tokenize_from 0 False input)) = EOF \<longleftrightarrow> list_all is_whitespace input"
  using tokenize_first_not_eof [of input 0 False] tokenize_whitespace [of input 0 False]
  by (auto simp: current_def eof_token_def)

subsection \<open>The token that the parser blames\<close>

text \<open>Streams, and the rules that introduce the notions.\<close>

lemma current_Cons [simp]: "current (t # s) = t"
  by (simp add: current_def)

lemma advance_Cons [simp]: "advance (t # s) = s"
  by (simp add: advance_def)

lemma noeof_simps [simp]:
  "noeof []" "noeof (t # ts) \<longleftrightarrow> type t \<noteq> EOF \<and> noeof ts"
  "noeof (xs @ ys) \<longleftrightarrow> noeof xs \<and> noeof ys"
  by (auto simp: noeof_def)

lemma type_current_Nil [simp]: "type (current []) = EOF"
  by (simp add: current_def eof_token_def)

lemma current_not_eof: "type (current s) \<noteq> EOF \<Longrightarrow> \<exists>s'. s = current s # s'"
  by (cases s) auto

lemma stops_halts_or: "stops z \<Longrightarrow> halts_or (current z)"
  by (auto simp: stops_def halts_or_def halts_def is_keyword_def starts_unary_def dotdot_def)

lemma halts_or_halts: "halts_or t \<Longrightarrow> halts t"
  by (simp add: halts_or_def)

lemma steadyD:
  "steady p h kk pre tree rest \<Longrightarrow> kk + 4 * length pre \<le> d'
   \<Longrightarrow> current z = current rest \<or> h (current z)
   \<Longrightarrow> p d' (pre @ z) = Inr (tree, z)"
  unfolding steady_def by blast

lemma completableI:
  "(\<And>d' z. kk + 4 * length (pre @ c) \<le> d' \<Longrightarrow> stops z \<Longrightarrow> p d' (pre @ c @ z) = Inr (tree, z))
   \<Longrightarrow> completable p kk pre"
  unfolding completable_def by blast

lemma locatedI:
  "s = pre @ post \<Longrightarrow> noeof pre \<Longrightarrow> e = unexpected (current post)
   \<Longrightarrow> (\<And>z d'. kk + 4 * length pre \<le> d' \<Longrightarrow> current z = current post \<Longrightarrow> p d' (pre @ z) = Inl e)
   \<Longrightarrow> completable p kk pre \<Longrightarrow> located p kk s e"
  unfolding located_def by blast

lemma blamesI:
  "(\<And>e. kk + 4 * length s \<le> d \<Longrightarrow> p d s = Inl e \<Longrightarrow> located p kk s e) \<Longrightarrow> blames p kk d s"
  unfolding blames_def by blast

text \<open>
  Sequencing. \<open>P\<close> consumes the tokens \<open>k\<close>, runs \<open>p1\<close> and then \<open>p2\<close> on the result of \<open>p1\<close>,
  one level deeper. What \<open>P\<close> returns comes from the tokens of \<open>k\<close>, of \<open>p1\<close> and of \<open>p2\<close>; a
  failure of \<open>P\<close> is the failure of \<open>p1\<close> or that of \<open>p2\<close>, behind the tokens consumed so far,
  and the tokens \<open>cl\<close> complete what \<open>p1\<close> returned.
\<close>

lemma accepts_seq:
  assumes eq: "\<And>d' x. current (k @ x) = current (k @ s) \<Longrightarrow>
                 P (Suc d') (k @ x) = and_then (p1 d' x) (\<lambda>(l, s1). p2 l d' s1)"
    and k: "noeof k"
    and g1: "accepts p1 h1 True k1 d s"
    and g2: "\<And>l s1. p1 d s = Inr (l, s1) \<Longrightarrow> accepts (p2 l) h2 ne2 k2 d s1"
    and h: "\<And>t. \<not> ne2 \<Longrightarrow> h2 t \<Longrightarrow> h1 t"
    and a1: "k1 + 1 \<le> kP + 4 * length k"
    and a2: "k2 \<le> kP + 4 * length k + 3"
  shows "accepts P h2 True kP (Suc d) (k @ s)"
  unfolding accepts_def
proof (intro allI impI)
  fix tree rest
  assume r: "P (Suc d) (k @ s) = Inr (tree, rest)"
  from r eq[of s d] have "and_then (p1 d s) (\<lambda>(l, s1). p2 l d s1) = Inr (tree, rest)"
    by simp
  then have "\<exists>l s1. p1 d s = Inr (l, s1) \<and> p2 l d s1 = Inr (tree, rest)"
    by (cases "p1 d s") auto
  then obtain l s1 where 1: "p1 d s = Inr (l, s1)" and 2: "p2 l d s1 = Inr (tree, rest)"
    by blast
  from g1 1 obtain pre1 where p1: "s = pre1 @ s1" "noeof pre1" "pre1 \<noteq> []"
      and r1: "steady p1 h1 k1 pre1 l s1"
    by (auto simp: accepts_def)
  from g2[OF 1] 2 obtain pre2 where p2: "s1 = pre2 @ rest" "noeof pre2" "ne2 \<longrightarrow> pre2 \<noteq> []"
      and r2: "steady (p2 l) h2 k2 pre2 tree rest"
    by (auto simp: accepts_def)
  from p1(3) have l1: "1 \<le> length pre1" by (cases pre1) auto
  have "steady P h2 kP (k @ pre1 @ pre2) tree rest"
    unfolding steady_def
  proof (intro allI impI)
    fix z d' assume d': "kP + 4 * length (k @ pre1 @ pre2) \<le> d'"
      and c: "current z = current rest \<or> h2 (current z)"
    with l1 obtain d'' where d'': "d' = Suc d''" by (cases d') auto
    from d' d'' a1 have f1: "k1 + 4 * length pre1 \<le> d''" by simp
    from d' d'' a2 l1 have f2: "k2 + 4 * length pre2 \<le> d''" by simp
    have cur: "current (k @ pre1 @ pre2 @ z) = current (k @ s)"
      using p1 by (cases k; cases pre1) auto
    have c1: "current (pre2 @ z) = current s1 \<or> h1 (current (pre2 @ z))"
      using c p2(1) p2(3) h by (cases pre2) auto
    have "p1 d'' (pre1 @ pre2 @ z) = Inr (l, pre2 @ z)"
      by (rule steadyD[OF r1 f1 c1])
    moreover have "p2 l d'' (pre2 @ z) = Inr (tree, z)"
      by (rule steadyD[OF r2 f2 c])
    ultimately show "P d' ((k @ pre1 @ pre2) @ z) = Inr (tree, z)"
      using eq[of "pre1 @ pre2 @ z" d''] cur d'' by simp
  qed
  with p1 p2 k show "\<exists>pre. k @ s = pre @ rest \<and> noeof pre \<and> (True \<longrightarrow> pre \<noteq> []) \<and> steady P h2 kP pre tree rest"
    by (intro exI[of _ "k @ pre1 @ pre2"]) auto
qed

lemma blames_seq:
  assumes eq: "\<And>d' x. current (k @ x) = current (k @ s) \<Longrightarrow>
                 P (Suc d') (k @ x) = and_then (p1 d' x) (\<lambda>(l, s1). p2 l d' s1)"
    and k: "noeof k"
    and g1: "accepts p1 h1 True k1 d s"
    and b1: "blames p1 k1 d s"
    and b2: "\<And>l s1. p1 d s = Inr (l, s1) \<Longrightarrow> blames (p2 l) k2 d s1"
    and cl: "\<And>l d' z. stops z \<Longrightarrow> p2 l (Suc d') (cl @ z) = Inr (r l, z)"
    and cls: "\<And>z. stops z \<Longrightarrow> stops (cl @ z)"
    and hs: "\<And>z. stops z \<Longrightarrow> h1 (current z)"
    and basic: "k = [] \<Longrightarrow> completable P kP []"
    and a0: "1 \<le> k1"
    and a1: "k1 + 1 \<le> kP + 4 * length k"
    and a2: "k2 \<le> kP + 4 * length k + 3"
  shows "blames P kP (Suc d) (k @ s)"
proof (rule blamesI)
  fix e assume fuel: "kP + 4 * length (k @ s) \<le> Suc d" and f: "P (Suc d) (k @ s) = Inl e"
  with eq[of s d] have f': "and_then (p1 d s) (\<lambda>(l, s1). p2 l d s1) = Inl e"
    by simp
  from fuel a1 have fuel1: "k1 + 4 * length s \<le> d" by simp
  show "located P kP (k @ s) e"
  proof (cases "p1 d s")
    case (Inl e1)
    with f' have e1: "e1 = e" by simp
    from b1 fuel1 Inl e1 obtain pre1 post where s: "s = pre1 @ post" and n1: "noeof pre1"
        and e: "e = unexpected (current post)"
        and d1: "\<forall>z d'. k1 + 4 * length pre1 \<le> d' \<longrightarrow> current z = current post
                   \<longrightarrow> p1 d' (pre1 @ z) = Inl e"
        and c1: "completable p1 k1 pre1"
      unfolding blames_def located_def by blast
    have det: "P d' ((k @ pre1) @ z) = Inl e"
      if d': "kP + 4 * length (k @ pre1) \<le> d'" and z: "current z = current post" for z d'
    proof -
      from d' a0 a1 obtain d'' where d'': "d' = Suc d''" by (cases d') auto
      from d' d'' a1 have "k1 + 4 * length pre1 \<le> d''" by simp
      with d1 z have "p1 d'' (pre1 @ z) = Inl e" by blast
      moreover have "current (k @ pre1 @ z) = current (k @ s)"
        using s z by (cases k; cases pre1) auto
      ultimately show ?thesis using eq[of "pre1 @ z" d''] d'' by simp
    qed
    have comp: "completable P kP (k @ pre1)"
    proof (cases "k = [] \<and> pre1 = []")
      case True
      with basic show ?thesis by simp
    next
      case False
      from c1 obtain c tree where
        c: "\<And>d' z. k1 + 4 * length (pre1 @ c) \<le> d' \<Longrightarrow> stops z \<Longrightarrow> p1 d' (pre1 @ c @ z) = Inr (tree, z)"
        unfolding completable_def by blast
      show ?thesis
      proof (rule completableI[where c = "c @ cl" and tree = "r tree"])
        fix d' z assume d': "kP + 4 * length ((k @ pre1) @ c @ cl) \<le> d'" and z: "stops z"
        with a0 a1 obtain d'' where d'': "d' = Suc (Suc d'')"
          by (cases d'; cases "d' - 1") auto
        from d' d'' a1 have f1: "k1 + 4 * length (pre1 @ c) \<le> Suc d''" by simp
        have cur: "current (k @ pre1 @ c @ cl @ z) = current (k @ s)"
          using s False by (cases k; cases pre1) auto
        have "p1 (Suc d'') (pre1 @ c @ cl @ z) = Inr (tree, cl @ z)"
          using c[OF f1 cls[OF z]] by simp
        moreover have "p2 tree (Suc d'') (cl @ z) = Inr (r tree, z)"
          by (rule cl[OF z])
        ultimately show "P d' ((k @ pre1) @ (c @ cl) @ z) = Inr (r tree, z)"
          using eq[of "pre1 @ c @ cl @ z" "Suc d''"] cur d'' by simp
      qed
    qed
    show ?thesis
      by (rule locatedI[where pre = "k @ pre1" and post = post])
         (use s n1 k e det comp in auto)
  next
    case (Inr p)
    obtain l s1 where p: "p = (l, s1)" by (cases p)
    with Inr have 1: "p1 d s = Inr (l, s1)" by simp
    with f' have 2: "p2 l d s1 = Inl e" by simp
    from g1 1 obtain pre1 where s: "s = pre1 @ s1" and n1: "noeof pre1" and ne: "pre1 \<noteq> []"
        and r1: "steady p1 h1 k1 pre1 l s1"
      by (auto simp: accepts_def)
    from ne have l1: "1 \<le> length pre1" by (cases pre1) auto
    from fuel s l1 a2 have fuel2: "k2 + 4 * length s1 \<le> d" by simp
    from b2[OF 1] fuel2 2 obtain pre2 post where s1: "s1 = pre2 @ post" and n2: "noeof pre2"
        and e: "e = unexpected (current post)"
        and d2: "\<forall>z d'. k2 + 4 * length pre2 \<le> d' \<longrightarrow> current z = current post
                   \<longrightarrow> p2 l d' (pre2 @ z) = Inl e"
        and c2: "completable (p2 l) k2 pre2"
      unfolding blames_def located_def by blast
    have cur: "current (k @ pre1 @ x) = current (k @ s)" for x
      using s ne by (cases k; cases pre1) auto
    have det: "P d' ((k @ pre1 @ pre2) @ z) = Inl e"
      if d': "kP + 4 * length (k @ pre1 @ pre2) \<le> d'" and z: "current z = current post" for z d'
    proof -
      from d' l1 obtain d'' where d'': "d' = Suc d''" by (cases d') auto
      from d' d'' a1 have f1: "k1 + 4 * length pre1 \<le> d''" by simp
      from d' d'' a2 l1 have f2: "k2 + 4 * length pre2 \<le> d''" by simp
      have "current (pre2 @ z) = current s1 \<or> h1 (current (pre2 @ z))"
        using s1 z by (cases pre2) auto
      then have "p1 d'' (pre1 @ pre2 @ z) = Inr (l, pre2 @ z)"
        by (rule steadyD[OF r1 f1])
      moreover from d2 f2 z have "p2 l d'' (pre2 @ z) = Inl e" by blast
      ultimately show ?thesis
        using eq[of "pre1 @ pre2 @ z" d''] cur[of "pre2 @ z"] d'' by simp
    qed
    have comp: "completable P kP (k @ pre1 @ pre2)"
    proof (cases "pre2 = []")
      case True
      show ?thesis
      proof (rule completableI[where c = cl and tree = "r l"])
        fix d' z assume d': "kP + 4 * length ((k @ pre1 @ pre2) @ cl) \<le> d'" and z: "stops z"
        with l1 obtain d'' where d'': "d' = Suc (Suc d'')"
          by (cases d'; cases "d' - 1") auto
        from d' d'' a1 have f1: "k1 + 4 * length pre1 \<le> Suc d''" by simp
        have "current (cl @ z) = current s1 \<or> h1 (current (cl @ z))"
          using hs[OF cls[OF z]] by simp
        then have "p1 (Suc d'') (pre1 @ cl @ z) = Inr (l, cl @ z)"
          by (rule steadyD[OF r1 f1])
        moreover have "p2 l (Suc d'') (cl @ z) = Inr (r l, z)"
          by (rule cl[OF z])
        ultimately show "P d' ((k @ pre1 @ pre2) @ cl @ z) = Inr (r l, z)"
          using eq[of "pre1 @ cl @ z" "Suc d''"] cur[of "cl @ z"] d'' True by simp
      qed
    next
      case False
      from c2 obtain c tree where
        c: "\<And>d' z. k2 + 4 * length (pre2 @ c) \<le> d' \<Longrightarrow> stops z \<Longrightarrow> p2 l d' (pre2 @ c @ z) = Inr (tree, z)"
        unfolding completable_def by blast
      show ?thesis
      proof (rule completableI[where c = c and tree = tree])
        fix d' z assume d': "kP + 4 * length ((k @ pre1 @ pre2) @ c) \<le> d'" and z: "stops z"
        with l1 obtain d'' where d'': "d' = Suc d''" by (cases d') auto
        from d' d'' a1 have f1: "k1 + 4 * length pre1 \<le> d''" by simp
        from d' d'' a2 l1 have f2: "k2 + 4 * length (pre2 @ c) \<le> d''" by simp
        have "current (pre2 @ c @ z) = current s1 \<or> h1 (current (pre2 @ c @ z))"
          using s1 False by (cases pre2) auto
        then have "p1 d'' (pre1 @ pre2 @ c @ z) = Inr (l, pre2 @ c @ z)"
          by (rule steadyD[OF r1 f1])
        moreover have "p2 l d'' (pre2 @ c @ z) = Inr (tree, z)"
          by (rule c[OF f2 z])
        ultimately show "P d' ((k @ pre1 @ pre2) @ c @ z) = Inr (tree, z)"
          using eq[of "pre1 @ pre2 @ c @ z" d''] cur[of "pre2 @ c @ z"] d'' by simp
      qed
    qed
    show ?thesis
      by (rule locatedI[where pre = "k @ pre1 @ pre2" and post = post])
         (use s s1 n1 n2 k e det comp in auto)
  qed
qed

text \<open>\<open>P\<close> consumes the tokens \<open>k\<close> and goes on as \<open>Q\<close>, one level deeper.\<close>

lemma accepts_pre:
  assumes eq: "\<And>d' x. current (k @ x) = current (k @ s) \<Longrightarrow> P (Suc d') (k @ x) = Q d' x"
    and k: "noeof k"
    and g: "accepts Q h ne kQ d s"
    and ne: "k \<noteq> [] \<or> ne"
    and a1: "kQ + 1 \<le> kP + 4 * length k"
  shows "accepts P h True kP (Suc d) (k @ s)"
  unfolding accepts_def
proof (intro allI impI)
  fix tree rest
  assume r: "P (Suc d) (k @ s) = Inr (tree, rest)"
  with eq[of s d] have "Q d s = Inr (tree, rest)" by simp
  with g obtain pre where p: "s = pre @ rest" "noeof pre" "ne \<longrightarrow> pre \<noteq> []"
      and rt: "steady Q h kQ pre tree rest"
    by (auto simp: accepts_def)
  have "steady P h kP (k @ pre) tree rest"
    unfolding steady_def
  proof (intro allI impI)
    fix z d' assume d': "kP + 4 * length (k @ pre) \<le> d'"
      and c: "current z = current rest \<or> h (current z)"
    with a1 obtain d'' where d'': "d' = Suc d''" by (cases d') auto
    from d' d'' a1 have f: "kQ + 4 * length pre \<le> d''" by simp
    have cur: "current (k @ pre @ z) = current (k @ s)"
      using p ne by (cases k; cases pre) auto
    have "Q d'' (pre @ z) = Inr (tree, z)"
      by (rule steadyD[OF rt f c])
    with eq[of "pre @ z" d''] cur d'' show "P d' ((k @ pre) @ z) = Inr (tree, z)"
      by simp
  qed
  with p k ne show "\<exists>pre. k @ s = pre @ rest \<and> noeof pre \<and> (True \<longrightarrow> pre \<noteq> []) \<and> steady P h kP pre tree rest"
    by (intro exI[of _ "k @ pre"]) auto
qed

lemma blames_pre:
  assumes eq: "\<And>d' x. current (k @ x) = current (k @ s) \<Longrightarrow> P (Suc d') (k @ x) = Q d' x"
    and k: "noeof k"
    and b: "blames Q kQ d s"
    and basic: "k = [] \<Longrightarrow> completable P kP []"
    and a1: "kQ + 1 \<le> kP + 4 * length k"
  shows "blames P kP (Suc d) (k @ s)"
proof (rule blamesI)
  fix e assume fuel: "kP + 4 * length (k @ s) \<le> Suc d" and f: "P (Suc d) (k @ s) = Inl e"
  with eq[of s d] have "Q d s = Inl e" by simp
  moreover from fuel a1 have "kQ + 4 * length s \<le> d" by simp
  ultimately obtain pre post where s: "s = pre @ post" and n: "noeof pre"
      and e: "e = unexpected (current post)"
      and dq: "\<forall>z d'. kQ + 4 * length pre \<le> d' \<longrightarrow> current z = current post
                 \<longrightarrow> Q d' (pre @ z) = Inl e"
      and cq: "completable Q kQ pre"
    using b unfolding blames_def located_def by blast
  have det: "P d' ((k @ pre) @ z) = Inl e"
    if d': "kP + 4 * length (k @ pre) \<le> d'" and z: "current z = current post" for z d'
  proof -
    from d' a1 obtain d'' where d'': "d' = Suc d''" by (cases d') auto
    from d' d'' a1 have "kQ + 4 * length pre \<le> d''" by simp
    with dq z have "Q d'' (pre @ z) = Inl e" by blast
    moreover have "current (k @ pre @ z) = current (k @ s)"
      using s z by (cases k; cases pre) auto
    ultimately show ?thesis using eq[of "pre @ z" d''] d'' by simp
  qed
  have comp: "completable P kP (k @ pre)"
  proof (cases "k = [] \<and> pre = []")
    case True
    with basic show ?thesis by simp
  next
    case False
    from cq obtain c tree where
      c: "\<And>d' z. kQ + 4 * length (pre @ c) \<le> d' \<Longrightarrow> stops z \<Longrightarrow> Q d' (pre @ c @ z) = Inr (tree, z)"
      unfolding completable_def by blast
    show ?thesis
    proof (rule completableI[where c = c and tree = tree])
      fix d' z assume d': "kP + 4 * length ((k @ pre) @ c) \<le> d'" and z: "stops z"
      with a1 obtain d'' where d'': "d' = Suc d''" by (cases d') auto
      from d' d'' a1 have f: "kQ + 4 * length (pre @ c) \<le> d''" by simp
      have cur: "current (k @ pre @ c @ z) = current (k @ s)"
        using s False by (cases k; cases pre) auto
      with eq[of "pre @ c @ z" d''] c[OF f z] d''
      show "P d' ((k @ pre) @ c @ z) = Inr (tree, z)" by simp
    qed
  qed
  show "located P kP (k @ s) e"
    by (rule locatedI[where pre = "k @ pre" and post = post])
       (use s n k e det comp in auto)
qed

text \<open>Sample tokens, and the tokens at which a stream stops.\<close>

lemma type_sample [simp]: "type (sample k) = k"
  by (simp add: sample_def)

lemma text_sample [simp]: "text_of (sample k) = ''x''"
  by (simp add: sample_def)

lemma value_sample [simp]: "is_value_token (sample IDENTIFIER)"
  by (simp add: is_value_token_def)

lemma stops_Cons [simp]: "stops (t # z) \<longleftrightarrow> type t = RPAREN \<or> type t = EOF"
  by (simp add: stops_def)

lemma stops_facts:
  assumes "stops z"
  shows "\<not> is_keyword w (current z)" "\<not> starts_unary (current z)" "\<not> dotdot (current z)"
    "type (current z) \<noteq> RANGE_OPERATOR" "\<not> is_value_token (current z)"
    "type (current z) \<noteq> COMMA" "type (current z) \<noteq> LPAREN" "type (current z) \<noteq> COLON"
  using assms
  by (auto simp: stops_def is_keyword_def starts_unary_def dotdot_def is_value_token_def)

lemma value_not_eof: "is_value_token t \<Longrightarrow> type t \<noteq> EOF"
  by (auto simp: is_value_token_def)

lemma current_shape: "type (current s) \<noteq> EOF \<Longrightarrow> s = current s # advance s"
  by (cases s) auto

text \<open>
  The values of an IN list: what \<open>parse_in_values\<close> returns comes from the tokens up to the
  closing parenthesis, whatever follows it; a failure is at the first token that is neither
  a value, a comma nor the closing parenthesis in its place.
\<close>

lemma in_values_steady:
  "parse_in_values s = Inr (vs, close, after) \<Longrightarrow>
   \<exists>pre. s = pre @ close # after \<and> noeof pre \<and> type close \<noteq> EOF
       \<and> (\<forall>z. parse_in_values (pre @ close # z) = Inr (vs, close, z))"
proof (induction s arbitrary: vs rule: parse_in_values.induct)
  case 1
  then show ?case by simp
next
  case (2 t stream)
  from "2.prems" have v: "is_value_token t" by (auto split: if_splits)
  show ?case
  proof (cases "type (current stream) = RPAREN")
    case True
    then have sh: "stream = current stream # advance stream"
      by (intro current_shape) simp
    from "2.prems" v True have r: "vs = [text_of t]" "close = current stream" "after = advance stream"
      by auto
    show ?thesis
      using sh r v True value_not_eof[OF v]
      by (intro exI[of _ "[t]"]) auto
  next
    case False
    with "2.prems" v have c: "type (current stream) = COMMA" by (auto split: if_splits)
    then have sh: "stream = current stream # advance stream"
      by (intro current_shape) simp
    from "2.prems" v False c obtain vs' where
      iv: "parse_in_values (advance stream) = Inr (vs', close, after)" and vs: "vs = text_of t # vs'"
      by (auto simp: and_then_eq_Inr)
    from "2.IH"[OF _ False c iv] v obtain pre where
      p: "advance stream = pre @ close # after" "noeof pre" "type close \<noteq> EOF"
        "\<forall>z. parse_in_values (pre @ close # z) = Inr (vs', close, z)"
      by auto
    have "t # stream = (t # current stream # pre) @ close # after"
      using sh p(1) by simp
    moreover have "noeof (t # current stream # pre)"
      using p(2) c value_not_eof[OF v] by simp
    moreover have "\<forall>z. parse_in_values ((t # current stream # pre) @ close # z) = Inr (vs, close, z)"
      using p(4) v c vs by simp
    ultimately show ?thesis using p(3) by blast
  qed
qed

lemma in_values_sample: "parse_in_values (sample IDENTIFIER # sample RPAREN # z) = Inr ([''x''], sample RPAREN, z)"
  by simp

lemma in_values_located:
  "parse_in_values s = Inl e \<Longrightarrow>
   \<exists>pre post. s = pre @ post \<and> noeof pre \<and> e = unexpected (current post)
       \<and> (\<forall>z. current z = current post \<longrightarrow> parse_in_values (pre @ z) = Inl e)
       \<and> (\<exists>c vs close. type close \<noteq> EOF \<and> (\<forall>z. parse_in_values (pre @ c @ z) = Inr (vs, close, z)))"
proof (induction s rule: parse_in_values.induct)
  case 1
  have "parse_in_values z = Inl (unexpected (current []))" if "current z = current []" for z
    using that by (cases z) (auto simp: current_def is_value_token_def eof_token_def)
  with 1 in_values_sample show ?case
    by (intro exI[of _ "[]"] exI[of _ "[]"]) (auto intro!: exI[of _ "[sample IDENTIFIER, sample RPAREN]"])
next
  case (2 t stream)
  show ?case
  proof (cases "is_value_token t")
    case False
    with "2.prems" have e: "e = unexpected t" by simp
    have "parse_in_values z = Inl (unexpected t)" if "current z = t" for z
      using that False by (cases z) (auto simp: current_def)
    with e in_values_sample show ?thesis
      by (intro exI[of _ "[]"] exI[of _ "t # stream"])
         (auto intro!: exI[of _ "[sample IDENTIFIER, sample RPAREN]"])
  next
    case v: True
    from "2.prems" v have nr: "type (current stream) \<noteq> RPAREN" by (auto split: if_splits)
    show ?thesis
    proof (cases "type (current stream) = COMMA")
      case False
      with "2.prems" v nr have e: "e = unexpected (current stream)" by simp
      have "parse_in_values (t # z) = Inl e" if "current z = current stream" for z
        using that v nr False e by simp
      moreover have "parse_in_values ([t] @ [sample RPAREN] @ z) = Inr ([text_of t], sample RPAREN, z)" for z
        using v by simp
      ultimately show ?thesis
        using e v value_not_eof[OF v]
        by (intro exI[of _ "[t]"] exI[of _ stream])
           (auto intro!: exI[of _ "[sample RPAREN]"])
    next
      case c: True
      then have sh: "stream = current stream # advance stream"
        by (intro current_shape) simp
      from "2.prems" v nr c have iv: "parse_in_values (advance stream) = Inl e"
        by (auto simp: and_then_eq_Inl)
      from "2.IH"[OF _ nr c iv] v obtain pre post cc vs close where
        p: "advance stream = pre @ post" "noeof pre" "e = unexpected (current post)"
          "\<forall>z. current z = current post \<longrightarrow> parse_in_values (pre @ z) = Inl e"
          "type close \<noteq> EOF" "\<forall>z. parse_in_values (pre @ cc @ z) = Inr (vs, close, z)"
        by auto
      have 1: "t # stream = (t # current stream # pre) @ post"
        using sh p(1) by simp
      have 2: "noeof (t # current stream # pre)"
        using p(2) c value_not_eof[OF v] by simp
      have 3: "\<forall>z. current z = current post \<longrightarrow> parse_in_values ((t # current stream # pre) @ z) = Inl e"
        using p(4) v c nr by simp
      have 4: "\<forall>z. parse_in_values ((t # current stream # pre) @ cc @ z) = Inr (text_of t # vs, close, z)"
        using p(6) v c nr by simp
      from 1 2 3 4 p(3) p(5) show ?thesis by blast
    qed
  qed
qed

text \<open>Rules for the two invariants.\<close>

lemma accepts_weaken: "accepts p h True kk d s \<Longrightarrow> accepts p h ne kk d s"
  unfolding accepts_def by blast

lemma accepts_never: "(\<And>y. p d s \<noteq> Inr y) \<Longrightarrow> accepts p h ne kk d s"
  unfolding accepts_def by blast

lemma blames_never: "(\<And>e. p d s \<noteq> Inl e) \<Longrightarrow> blames p kk d s"
  unfolding blames_def by blast

lemma blames_fuel: "d < kk \<Longrightarrow> blames p kk d s"
  unfolding blames_def by simp

lemma acceptsI:
  "(\<And>tree rest. p d s = Inr (tree, rest) \<Longrightarrow>
      \<exists>pre. s = pre @ rest \<and> noeof pre \<and> pre \<noteq> [] \<and>
        (\<forall>z d'. kk + 4 * length pre \<le> d' \<longrightarrow> (current z = current rest \<or> h (current z))
            \<longrightarrow> p d' (pre @ z) = Inr (tree, z)))
   \<Longrightarrow> accepts p h ne kk d s"
  unfolding accepts_def steady_def by blast

text \<open>
  One identifier in front of a stream that stops completable every function of the parser.
\<close>

lemma atom_sample:
  "parse_atom (Suc d) (sample IDENTIFIER # z) = Inr (FP_SEARCH_TERM ''x'' 0 1, z)"
  by (simp add: Let_def sample_def)

lemma not_keyword_sample [simp]: "\<not> is_keyword w (sample IDENTIFIER)"
  by (simp add: is_keyword_def)

lemma unary_sample:
  "parse_unary (Suc (Suc d)) (sample IDENTIFIER # z) = Inr (FP_SEARCH_TERM ''x'' 0 1, z)"
  by (simp add: atom_sample del: parse_atom.simps)

lemma and_rest_stops: "stops z \<Longrightarrow> parse_and_rest (Suc d) l z = Inr (l, z)"
  by (simp add: stops_facts)

lemma or_rest_stops: "stops z \<Longrightarrow> parse_or_rest (Suc d) l z = Inr (l, z)"
  by (simp add: stops_facts)

lemma and_sample:
  "stops z \<Longrightarrow> parse_and (Suc (Suc (Suc d))) (sample IDENTIFIER # z) = Inr (FP_SEARCH_TERM ''x'' 0 1, z)"
  by (simp add: unary_sample and_rest_stops del: parse_unary.simps parse_and_rest.simps)

lemma or_sample:
  "stops z \<Longrightarrow> parse_or (Suc (Suc (Suc (Suc d)))) (sample IDENTIFIER # z) = Inr (FP_SEARCH_TERM ''x'' 0 1, z)"
  by (simp add: and_sample or_rest_stops del: parse_and.simps parse_or_rest.simps)

lemma completable_atom: "completable parse_atom 1 []"
proof (rule completableI[where c = "[sample IDENTIFIER]" and tree = "FP_SEARCH_TERM ''x'' 0 1"])
  fix d' z assume "1 + 4 * length ([] @ [sample IDENTIFIER]) \<le> d'" "stops z"
  then obtain d where "d' = Suc d" by (cases d') auto
  then show "parse_atom d' ([] @ [sample IDENTIFIER] @ z) = Inr (FP_SEARCH_TERM ''x'' 0 1, z)"
    using atom_sample by simp
qed

lemma completable_unary: "completable parse_unary 2 []"
proof (rule completableI[where c = "[sample IDENTIFIER]" and tree = "FP_SEARCH_TERM ''x'' 0 1"])
  fix d' z assume "2 + 4 * length ([] @ [sample IDENTIFIER]) \<le> d'" "stops z"
  then obtain d where "d' = Suc (Suc d)" by (cases d'; cases "d' - 1") auto
  then show "parse_unary d' ([] @ [sample IDENTIFIER] @ z) = Inr (FP_SEARCH_TERM ''x'' 0 1, z)"
    using unary_sample by simp
qed

lemma completable_and: "completable parse_and 3 []"
proof (rule completableI[where c = "[sample IDENTIFIER]" and tree = "FP_SEARCH_TERM ''x'' 0 1"])
  fix d' z assume "3 + 4 * length ([] @ [sample IDENTIFIER]) \<le> d'" and z: "stops z"
  then obtain d where "d' = Suc (Suc (Suc d))"
    by (cases d'; cases "d' - 1"; cases "d' - 2") auto
  then show "parse_and d' ([] @ [sample IDENTIFIER] @ z) = Inr (FP_SEARCH_TERM ''x'' 0 1, z)"
    using and_sample[OF z] by simp
qed

lemma completable_or: "completable parse_or 4 []"
proof (rule completableI[where c = "[sample IDENTIFIER]" and tree = "FP_SEARCH_TERM ''x'' 0 1"])
  fix d' z assume "4 + 4 * length ([] @ [sample IDENTIFIER]) \<le> d'" and z: "stops z"
  then obtain d where "d' = Suc (Suc (Suc (Suc d)))"
    by (cases d'; cases "d' - 1"; cases "d' - 2"; cases "d' - 3") auto
  then show "parse_or d' ([] @ [sample IDENTIFIER] @ z) = Inr (FP_SEARCH_TERM ''x'' 0 1, z)"
    using or_sample[OF z] by simp
qed

lemma completable_and_rest: "completable (\<lambda>d. parse_and_rest d l) 3 []"
proof (rule completableI[where c = "[]" and tree = l])
  fix d' z assume "3 + 4 * length ([] @ ([]::Token list)) \<le> d'" and z: "stops z"
  then obtain d where "d' = Suc d" by (cases d') auto
  then show "parse_and_rest d' l ([] @ [] @ z) = Inr (l, z)"
    using and_rest_stops[OF z] by simp
qed

text \<open>What follows a field name and its colon.\<close>

lemma in_node_eq:
  "and_then (parse_in_values x) (\<lambda>(vs, close, after). Inr (g vs close, after)) = Inr (tree, rest)
   \<longleftrightarrow> (\<exists>vs close. parse_in_values x = Inr (vs, close, rest) \<and> tree = g vs close)"
  by (cases "parse_in_values x") auto

lemma in_node_fail:
  "and_then (parse_in_values x) (\<lambda>(vs, close, after). Inr (g vs close, after)) = Inl e
   \<longleftrightarrow> parse_in_values x = Inl e"
  by (cases "parse_in_values x") auto

lemma halts_not_dotdot: "halts t \<Longrightarrow> \<not> (type t = RANGE_OPERATOR \<and> text_of t = ''..'')"
  by (simp add: halts_def dotdot_def)

lemma accepts_field_rest: "accepts (\<lambda>d. parse_field_rest f) halts ne 0 d s"
proof (rule acceptsI)
  fix tree rest
  assume r: "parse_field_rest f s = Inr (tree, rest)"
  let ?t = "current s"
  let ?G = "\<exists>pre. s = pre @ rest \<and> noeof pre \<and> pre \<noteq> [] \<and>
        (\<forall>z d'. 0 + 4 * length pre \<le> d' \<longrightarrow> (current z = current rest \<or> halts (current z))
            \<longrightarrow> parse_field_rest f (pre @ z) = Inr (tree, z))"
  consider (A) "is_keyword ''IN'' ?t"
    | (B) "\<not> is_keyword ''IN'' ?t" "type ?t = RANGE_OPERATOR"
    | (C) "\<not> is_keyword ''IN'' ?t" "type ?t \<noteq> RANGE_OPERATOR" "is_value_token ?t"
    | (D) "\<not> is_keyword ''IN'' ?t" "type ?t \<noteq> RANGE_OPERATOR" "\<not> is_value_token ?t"
    by blast
  then show ?G
  proof cases
    case A
    then have "type ?t \<noteq> EOF" by (simp add: is_keyword_def)
    then obtain s1 where s: "s = ?t # s1" using current_not_eof by blast
    from r A have lp: "type (current s1) = LPAREN"
      by (subst (asm) s) (auto simp: parse_field_rest_def Let_def split: if_splits)
    then obtain s2 where s1: "s1 = current s1 # s2" using current_not_eof[of s1] by auto
    define g where "g = (\<lambda>vs close. FP_IN \<lparr>position = position f, len = token_end close - position f,
                                  field = text_of f, values = vs\<rparr>)"
    have eq: "parse_field_rest f (?t # current s1 # x)
        = and_then (parse_in_values x) (\<lambda>(vs, close, after). Inr (g vs close, after))" for x
      using A lp by (simp add: parse_field_rest_def Let_def g_def)
    from r have "parse_field_rest f (?t # current s1 # s2) = Inr (tree, rest)"
      using s s1 by simp
    then obtain vs close where iv: "parse_in_values s2 = Inr (vs, close, rest)"
        and tree: "tree = g vs close"
      unfolding eq in_node_eq by blast
    from in_values_steady[OF iv] obtain pre where p: "s2 = pre @ close # rest" "noeof pre" "type close \<noteq> EOF"
        "\<forall>z. parse_in_values (pre @ close # z) = Inr (vs, close, z)"
      by blast
    have 1: "s = (?t # current s1 # pre @ [close]) @ rest"
      using s s1 p(1) by simp
    have 2: "noeof (?t # current s1 # pre @ [close])"
      using p(2,3) lp \<open>type ?t \<noteq> EOF\<close> by simp
    have 3: "parse_field_rest f ((?t # current s1 # pre @ [close]) @ z) = Inr (tree, z)" for z
      using eq[of "pre @ close # z"] p(4) tree by simp
    from 1 2 3 show ?thesis by blast
  next
    case B
    then have "type ?t \<noteq> EOF" by simp
    then obtain s1 where s: "s = ?t # s1" using current_not_eof by blast
    from r B obtain operator where op: "range_operator_of (text_of ?t) = Some operator"
      and v: "is_value_token (current s1)"
      by (subst (asm) s) (auto simp: parse_field_rest_def Let_def split: if_splits option.splits)
    from v obtain s2 where s1: "s1 = current s1 # s2"
      using current_not_eof[of s1] value_not_eof by blast
    have eq: "parse_field_rest f (?t # current s1 # x)
        = Inr (FP_RANGE (word_of f) operator (word_of (current s1)) None
                               (position f) (token_end (current s1) - position f), x)" for x
      using B op v by (simp add: parse_field_rest_def Let_def)
    from r have "parse_field_rest f (?t # current s1 # s2) = Inr (tree, rest)"
      using s s1 by simp
    then have tr: "tree = FP_RANGE (word_of f) operator (word_of (current s1)) None
                               (position f) (token_end (current s1) - position f)" "rest = s2"
      unfolding eq by auto
    have 1: "s = [?t, current s1] @ rest" using s s1 tr(2) by simp
    have 2: "noeof [?t, current s1]" using \<open>type ?t \<noteq> EOF\<close> value_not_eof[OF v] by simp
    have 3: "parse_field_rest f ([?t, current s1] @ z) = Inr (tree, z)" for z
      using eq[of z] tr(1) by simp
    from 1 2 3 show ?thesis by blast
  next
    case C
    then have ne: "type ?t \<noteq> EOF" using value_not_eof by blast
    then obtain s1 where s: "s = ?t # s1" using current_not_eof by blast
    show ?thesis
    proof (cases "type (current s1) = RANGE_OPERATOR \<and> text_of (current s1) = ''..''")
      case True
      then obtain s2 where s1: "s1 = current s1 # s2" using current_not_eof[of s1] by auto
      from r C True have v: "is_value_token (current s2)"
        by (subst (asm) s, subst (asm) s1) (auto simp: parse_field_rest_def Let_def split: if_splits)
      then obtain s3 where s2: "s2 = current s2 # s3"
        using current_not_eof[of s2] value_not_eof by blast
      have eq: "parse_field_rest f (?t # current s1 # current s2 # x)
        = Inr (FP_RANGE (word_of f) BETWEEN (word_of ?t) (Some (word_of (current s2)))
                                 (position f) (token_end (current s2) - position f), x)" for x
        using C True v by (simp add: parse_field_rest_def Let_def)
      from r have "parse_field_rest f (?t # current s1 # current s2 # s3) = Inr (tree, rest)"
        using s s1 s2 by simp
      then have tr: "tree = FP_RANGE (word_of f) BETWEEN (word_of ?t) (Some (word_of (current s2)))
                                 (position f) (token_end (current s2) - position f)" "rest = s3"
        unfolding eq by auto
      have 1: "s = [?t, current s1, current s2] @ rest" using s s1 s2 tr(2) by simp
      have 2: "noeof [?t, current s1, current s2]" using ne value_not_eof[OF v] True by simp
      have 3: "parse_field_rest f ([?t, current s1, current s2] @ z) = Inr (tree, z)" for z
        using eq[of z] tr(1) by simp
      from 1 2 3 show ?thesis by blast
    next
      case False
      have eq: "parse_field_rest f (?t # x)
        = Inr (FP_FIELD_VALUE (word_of f) (word_of ?t)
                           (position f) (token_end ?t - position f), x)"
        if "\<not> (type (current x) = RANGE_OPERATOR \<and> text_of (current x) = ''..'')" for x
        using C that by (simp add: parse_field_rest_def Let_def)
      from r have "parse_field_rest f (?t # s1) = Inr (tree, rest)"
        using s by simp
      then have tr: "tree = FP_FIELD_VALUE (word_of f) (word_of ?t)
                           (position f) (token_end ?t - position f)" "rest = s1"
        unfolding eq[OF False] by auto
      have 1: "s = [?t] @ rest" using s tr(2) by simp
      have 2: "noeof [?t]" using ne by simp
      have 3: "parse_field_rest f ([?t] @ z) = Inr (tree, z)"
        if "current z = current rest \<or> halts (current z)" for z
      proof -
        from that False tr(2) halts_not_dotdot
        have "\<not> (type (current z) = RANGE_OPERATOR \<and> text_of (current z) = ''..'')"
          by metis
        from eq[OF this] tr(1) show ?thesis by simp
      qed
      from 1 2 3 show ?thesis by blast
    qed
  next
    case D
    with r show ?thesis by (simp add: parse_field_rest_def Let_def)
  qed
qed

lemma field_rest_sample:
  "stops z \<Longrightarrow> parse_field_rest f (sample IDENTIFIER # z)
     = Inr (FP_FIELD_VALUE (word_of f) (word_of (sample IDENTIFIER))
              (position f) (token_end (sample IDENTIFIER) - position f), z)"
  using stops_facts(3)[of z]
  by (simp add: parse_field_rest_def Let_def dotdot_def)

lemma completable_field_rest: "completable (\<lambda>d. parse_field_rest f) 0 []"
  by (rule completableI[where c = "[sample IDENTIFIER]"]) (simp add: field_rest_sample)

lemma blames_field_rest: "blames (\<lambda>d. parse_field_rest f) 0 d s"
proof (rule blamesI)
  fix e
  assume r: "parse_field_rest f s = Inl e"
  let ?t = "current s"
  let ?P = "\<lambda>d::nat. parse_field_rest f"
  consider (A) "is_keyword ''IN'' ?t"
    | (B) "\<not> is_keyword ''IN'' ?t" "type ?t = RANGE_OPERATOR"
    | (C) "\<not> is_keyword ''IN'' ?t" "type ?t \<noteq> RANGE_OPERATOR" "is_value_token ?t"
    | (D) "\<not> is_keyword ''IN'' ?t" "type ?t \<noteq> RANGE_OPERATOR" "\<not> is_value_token ?t"
    by blast
  then show "located ?P 0 s e"
  proof cases
    case A
    then have ne: "type ?t \<noteq> EOF" by (simp add: is_keyword_def)
    then obtain s1 where s: "s = ?t # s1" using current_not_eof by blast
    define g where "g = (\<lambda>vs close. FP_IN \<lparr>position = position f, len = token_end close - position f,
                                  field = text_of f, values = vs\<rparr>)"
    have eq: "parse_field_rest f (?t # t1 # x)
        = and_then (parse_in_values x) (\<lambda>(vs, close, after). Inr (g vs close, after))"
      if "type t1 = LPAREN" for x t1
      using A that by (simp add: parse_field_rest_def Let_def g_def)
    show ?thesis
    proof (cases "type (current s1) = LPAREN")
      case False
      have eq2: "parse_field_rest f (?t # x) = Inl (unexpected (current x))"
        if "type (current x) \<noteq> LPAREN" for x
        using A that by (simp add: parse_field_rest_def Let_def)
      from r s eq2[OF False] have e: "e = unexpected (current s1)" by simp
      have comp: "completable ?P 0 [?t]"
      proof (rule completableI[where c = "[sample LPAREN, sample IDENTIFIER, sample RPAREN]"
                                and tree = "g [''x''] (sample RPAREN)"])
        fix d' z
        show "parse_field_rest f ([?t] @ [sample LPAREN, sample IDENTIFIER, sample RPAREN] @ z)
                = Inr (g [''x''] (sample RPAREN), z)"
          using eq[of "sample LPAREN" "sample IDENTIFIER # sample RPAREN # z"]
          by (simp del: parse_in_values.simps add: in_values_sample)
      qed
      show ?thesis
      proof (rule locatedI[where pre = "[?t]" and post = s1])
        show "s = [?t] @ s1" using s by simp
        show "noeof [?t]" using ne by simp
        show "e = unexpected (current s1)" by (rule e)
        show "parse_field_rest f ([?t] @ z) = Inl e" if "current z = current s1" for z d'
          using eq2[of z] that False e by simp
        show "completable ?P 0 [?t]" by (rule comp)
      qed
    next
      case lp: True
      then obtain s2 where s1: "s1 = current s1 # s2" using current_not_eof[of s1] by auto
      from r have "parse_field_rest f (?t # current s1 # s2) = Inl e"
        using s s1 by simp
      then have iv: "parse_in_values s2 = Inl e"
        unfolding eq[OF lp] in_node_fail .
      from in_values_located[OF iv] obtain pre post c vs close where
        p: "s2 = pre @ post" "noeof pre" "e = unexpected (current post)"
          "\<forall>z. current z = current post \<longrightarrow> parse_in_values (pre @ z) = Inl e"
          "\<forall>z. parse_in_values (pre @ c @ z) = Inr (vs, close, z)"
        by blast
      show ?thesis
      proof (rule locatedI[where pre = "?t # current s1 # pre" and post = post])
        show "s = (?t # current s1 # pre) @ post" using s s1 p(1) by simp
        show "noeof (?t # current s1 # pre)" using ne lp p(2) by simp
        show "e = unexpected (current post)" by (rule p(3))
        show "parse_field_rest f ((?t # current s1 # pre) @ z) = Inl e"
          if "current z = current post" for z d'
          using eq[OF lp, of "pre @ z"] p(4) that by (simp add: in_node_fail)
        show "completable ?P 0 (?t # current s1 # pre)"
          by (rule completableI[where c = c and tree = "g vs close"])
             (use eq[OF lp] p(5) in simp)
      qed
    qed
  next
    case B
    then have ne: "type ?t \<noteq> EOF" by simp
    then obtain s1 where s: "s = ?t # s1" using current_not_eof by blast
    show ?thesis
    proof (cases "range_operator_of (text_of ?t)")
      case None
      have eq: "parse_field_rest f x = Inl (unexpected ?t)" if "current x = ?t" for x
        using B None that by (simp add: parse_field_rest_def Let_def)
      from r eq[of s] have e: "e = unexpected ?t" by simp
      show ?thesis
        by (rule locatedI[where pre = "[]" and post = s])
           (use e eq completable_field_rest in auto)
    next
      case (Some operator)
      have eq: "parse_field_rest f (?t # x) = Inl (unexpected (current x))"
        if "\<not> is_value_token (current x)" for x
        using B Some that by (simp add: parse_field_rest_def Let_def)
      have eq2: "parse_field_rest f (?t # t1 # x)
        = Inr (FP_RANGE (word_of f) operator (word_of t1) None
                               (position f) (token_end t1 - position f), x)"
        if "is_value_token t1" for x t1
        using B Some that by (simp add: parse_field_rest_def Let_def)
      have nv: "\<not> is_value_token (current s1)"
      proof
        assume v: "is_value_token (current s1)"
        then obtain s2 where "s1 = current s1 # s2"
          using current_not_eof[of s1] value_not_eof by blast
        with s have "s = ?t # current s1 # s2" by simp
        with r eq2[OF v, of s2] show False by simp
      qed
      from r s eq[OF nv] have e: "e = unexpected (current s1)" by simp
      show ?thesis
      proof (rule locatedI[where pre = "[?t]" and post = s1])
        show "s = [?t] @ s1" using s by simp
        show "noeof [?t]" using ne by simp
        show "e = unexpected (current s1)" by (rule e)
        show "parse_field_rest f ([?t] @ z) = Inl e" if "current z = current s1" for z d'
          using eq[of z] that nv e by simp
        show "completable ?P 0 [?t]"
          by (rule completableI[where c = "[sample IDENTIFIER]"])
             (use eq2[of "sample IDENTIFIER"] in simp)
      qed
    qed
  next
    case C
    then have ne: "type ?t \<noteq> EOF" using value_not_eof by blast
    then obtain s1 where s: "s = ?t # s1" using current_not_eof by blast
    have dd: "type (current s1) = RANGE_OPERATOR \<and> text_of (current s1) = ''..''"
    proof (rule ccontr)
      assume "\<not> ?thesis"
      with C have "parse_field_rest f (?t # s1) = Inr (FP_FIELD_VALUE (word_of f) (word_of ?t)
                           (position f) (token_end ?t - position f), s1)"
        by (simp add: parse_field_rest_def Let_def)
      with r s show False by simp
    qed
    then obtain s2 where s1: "s1 = current s1 # s2" using current_not_eof[of s1] by auto
    have eq: "parse_field_rest f (?t # current s1 # x) = Inl (unexpected (current x))"
      if "\<not> is_value_token (current x)" for x
      using C dd that by (simp add: parse_field_rest_def Let_def)
    have eq2: "parse_field_rest f (?t # current s1 # t2 # x)
        = Inr (FP_RANGE (word_of f) BETWEEN (word_of ?t) (Some (word_of t2))
                                 (position f) (token_end t2 - position f), x)"
      if "is_value_token t2" for x t2
      using C dd that by (simp add: parse_field_rest_def Let_def)
    have nv: "\<not> is_value_token (current s2)"
    proof
      assume v: "is_value_token (current s2)"
      then obtain s3 where "s2 = current s2 # s3"
        using current_not_eof[of s2] value_not_eof by blast
      with s s1 have "s = ?t # current s1 # current s2 # s3" by simp
      with r eq2[OF v, of s3] show False by simp
    qed
    from r s s1 eq[OF nv] have e: "e = unexpected (current s2)" by simp
    show ?thesis
    proof (rule locatedI[where pre = "[?t, current s1]" and post = s2])
      show "s = [?t, current s1] @ s2" using s s1 by simp
      show "noeof [?t, current s1]" using ne dd by simp
      show "e = unexpected (current s2)" by (rule e)
      show "parse_field_rest f ([?t, current s1] @ z) = Inl e" if "current z = current s2" for z d'
        using eq[of z] that nv e by simp
      show "completable ?P 0 [?t, current s1]"
        by (rule completableI[where c = "[sample IDENTIFIER]"])
           (use eq2[of "sample IDENTIFIER"] in simp)
    qed
  next
    case D
    have eq: "parse_field_rest f x = Inl (unexpected ?t)" if "current x = ?t" for x
      using D that by (simp add: parse_field_rest_def Let_def)
    from r eq[of s] have e: "e = unexpected ?t" by simp
    show ?thesis
      by (rule locatedI[where pre = "[]" and post = s])
         (use e eq completable_field_rest in auto)
  qed
qed

text \<open>A function that returns its argument and consumes nothing.\<close>

lemma accepts_return:
  assumes "\<And>tree rest. p d s = Inr (tree, rest) \<Longrightarrow> tree = l \<and> rest = s"
    and "\<And>z d'. kk \<le> d' \<Longrightarrow> current z = current s \<or> h (current z) \<Longrightarrow> p d' z = Inr (l, z)"
  shows "accepts p h False kk d s"
  unfolding accepts_def steady_def
proof (intro allI impI)
  fix tree rest assume "p d s = Inr (tree, rest)"
  with assms(1) have "tree = l" "rest = s" by auto
  with assms(2) show "\<exists>pre. s = pre @ rest \<and> noeof pre \<and> (False \<longrightarrow> pre \<noteq> []) \<and>
       (\<forall>z d'. kk + 4 * length pre \<le> d' \<longrightarrow> current z = current rest \<or> h (current z)
          \<longrightarrow> p d' (pre @ z) = Inr (tree, z))"
    by (intro exI[of _ "[]"]) simp
qed

lemma keyword_shape: "is_keyword w (current s) \<Longrightarrow> s = current s # advance s"
  by (rule current_shape) (simp add: is_keyword_def)

lemma keyword_not_eof: "is_keyword w t \<Longrightarrow> type t \<noteq> EOF"
  by (simp add: is_keyword_def)

lemma halts_or_not_or: "halts_or t \<Longrightarrow> \<not> is_keyword ''OR'' t"
  by (simp add: halts_or_def)

lemma halts_facts: "halts t \<Longrightarrow> \<not> is_keyword ''AND'' t" "halts t \<Longrightarrow> \<not> starts_unary t"
  by (simp_all add: halts_def)

lemma stops_halts: "stops z \<Longrightarrow> halts (current z)"
  by (simp add: stops_halts_or halts_or_halts)

text \<open>What each function of the parser returns, one level of depth at a time.\<close>

lemma accepts_or_step:
  assumes a: "\<And>s. accepts parse_and halts True 3 d s"
    and b: "\<And>l s. accepts (\<lambda>d. parse_or_rest d l) halts_or False 1 d s"
  shows "accepts parse_or halts_or True 4 (Suc d) s"
proof -
  have "accepts parse_or halts_or True 4 (Suc d) ([] @ s)"
    by (rule accepts_seq[where ?p1.0 = parse_and and ?p2.0 = "\<lambda>l d. parse_or_rest d l"
          and ?h1.0 = halts and ?ne2.0 = False and ?k1.0 = 3 and ?k2.0 = 1])
       (use a b halts_or_halts in simp_all)
  then show ?thesis by simp
qed

lemma accepts_or_rest_step:
  assumes a: "\<And>s. accepts parse_and halts True 3 d s"
    and b: "\<And>l s. accepts (\<lambda>d. parse_or_rest d l) halts_or False 1 d s"
  shows "accepts (\<lambda>d. parse_or_rest d l) halts_or False 1 (Suc d) s"
proof (cases "is_keyword ''OR'' (current s)")
  case True
  have "accepts (\<lambda>d. parse_or_rest d l) halts_or True 1 (Suc d) ([current s] @ advance s)"
    by (rule accepts_seq[where ?p1.0 = parse_and
          and ?p2.0 = "\<lambda>r d. parse_or_rest d (binary_node FP_OR l r)"
          and ?h1.0 = halts and ?ne2.0 = False and ?k1.0 = 3 and ?k2.0 = 1])
       (use True a b halts_or_halts keyword_not_eof in simp_all)
  then show ?thesis using keyword_shape[OF True] accepts_weaken by fastforce
next
  case False
  show ?thesis
  proof (rule accepts_return[where l = l])
    fix tree rest assume "parse_or_rest (Suc d) l s = Inr (tree, rest)"
    with False show "tree = l \<and> rest = s" by simp
  next
    fix z and d' :: nat assume "1 \<le> d'" and c: "current z = current s \<or> halts_or (current z)"
    then obtain d'' where "d' = Suc d''" by (cases d') auto
    moreover from c False have "\<not> is_keyword ''OR'' (current z)"
      using halts_or_not_or by auto
    ultimately show "parse_or_rest d' l z = Inr (l, z)" by simp
  qed
qed

lemma accepts_and_step:
  assumes a: "\<And>s. accepts parse_unary halts True 2 d s"
    and b: "\<And>l s. accepts (\<lambda>d. parse_and_rest d l) halts False 3 d s"
  shows "accepts parse_and halts True 3 (Suc d) s"
proof -
  have "accepts parse_and halts True 3 (Suc d) ([] @ s)"
    by (rule accepts_seq[where ?p1.0 = parse_unary and ?p2.0 = "\<lambda>l d. parse_and_rest d l"
          and ?h1.0 = halts and ?ne2.0 = False and ?k1.0 = 2 and ?k2.0 = 3])
       (use a b in simp_all)
  then show ?thesis by simp
qed

lemma accepts_and_rest_step:
  assumes a: "\<And>s. accepts parse_unary halts True 2 d s"
    and b: "\<And>l s. accepts (\<lambda>d. parse_and_rest d l) halts False 3 d s"
  shows "accepts (\<lambda>d. parse_and_rest d l) halts False 3 (Suc d) s"
proof -
  consider (A) "is_keyword ''AND'' (current s)"
    | (J) "\<not> is_keyword ''AND'' (current s)" "starts_unary (current s)"
    | (R) "\<not> is_keyword ''AND'' (current s)" "\<not> starts_unary (current s)"
    by blast
  then show ?thesis
  proof cases
    case A
    have "accepts (\<lambda>d. parse_and_rest d l) halts True 3 (Suc d) ([current s] @ advance s)"
      by (rule accepts_seq[where ?p1.0 = parse_unary
            and ?p2.0 = "\<lambda>r d. parse_and_rest d (binary_node FP_AND l r)"
            and ?h1.0 = halts and ?ne2.0 = False and ?k1.0 = 2 and ?k2.0 = 3])
         (use A a b keyword_not_eof in simp_all)
    then show ?thesis using keyword_shape[OF A] accepts_weaken by fastforce
  next
    case J
    have "accepts (\<lambda>d. parse_and_rest d l) halts True 3 (Suc d) ([] @ s)"
      by (rule accepts_seq[where ?p1.0 = parse_unary
            and ?p2.0 = "\<lambda>r d. parse_and_rest d (binary_node FP_AND l r)"
            and ?h1.0 = halts and ?ne2.0 = False and ?k1.0 = 2 and ?k2.0 = 3])
         (use J a b in simp_all)
    then show ?thesis using accepts_weaken by fastforce
  next
    case R
    show ?thesis
    proof (rule accepts_return[where l = l])
      fix tree rest assume "parse_and_rest (Suc d) l s = Inr (tree, rest)"
      with R show "tree = l \<and> rest = s" by simp
    next
      fix z and d' :: nat assume "3 \<le> d'" and c: "current z = current s \<or> halts (current z)"
      then obtain d'' where "d' = Suc d''" by (cases d') auto
      moreover from c R have "\<not> is_keyword ''AND'' (current z)" "\<not> starts_unary (current z)"
        using halts_facts by auto
      ultimately show "parse_and_rest d' l z = Inr (l, z)" by simp
    qed
  qed
qed

lemma accepts_unary_step:
  assumes a: "\<And>s. accepts parse_unary halts True 2 d s"
    and b: "\<And>s. accepts parse_atom halts True 1 d s"
  shows "accepts parse_unary halts True 2 (Suc d) s"
proof (cases "is_keyword ''NOT'' (current s)")
  case True
  let ?t = "current s"
  have "accepts parse_unary halts True 2 (Suc d) ([?t] @ advance s)"
  proof (rule accepts_seq[where ?p1.0 = parse_unary
            and ?p2.0 = "\<lambda>e d s1. Inr (FP_NOT e (position ?t) (node_end e - position ?t), s1)"
            and ?h1.0 = halts and ?ne2.0 = False and ?k1.0 = 2 and ?k2.0 = 0])
    fix l s1
    show "accepts (\<lambda>d s1. Inr (FP_NOT l (position ?t) (node_end l - position ?t), s1)) halts False 0 d s1"
      by (rule accepts_return[where l = "FP_NOT l (position ?t) (node_end l - position ?t)"]) simp_all
  qed (use True a keyword_not_eof in simp_all)
  then show ?thesis using keyword_shape[OF True] by simp
next
  case False
  have "accepts parse_unary halts True 2 (Suc d) ([] @ s)"
    by (rule accepts_pre[where Q = parse_atom and ne = True and kQ = 1])
       (use False b in simp_all)
  then show ?thesis by simp
qed

lemma accepts_expect:
  "accepts (\<lambda>d s1. if type (current s1) = RPAREN then Inr (l, advance s1)
                  else Inl (unexpected (current s1))) h ne 0 d s"
proof (rule acceptsI)
  fix tree rest
  assume r: "(if type (current s) = RPAREN then Inr (l, advance s) else Inl (unexpected (current s)))
               = Inr (tree, rest)"
  then have rp: "type (current s) = RPAREN" and tr: "tree = l" "rest = advance s"
    by (auto split: if_splits)
  from rp have s: "s = current s # advance s" by (intro current_shape) simp
  show "\<exists>pre. s = pre @ rest \<and> noeof pre \<and> pre \<noteq> [] \<and>
        (\<forall>z d'. 0 + 4 * length pre \<le> d' \<longrightarrow> current z = current rest \<or> h (current z) \<longrightarrow>
           (if type (current (pre @ z)) = RPAREN then Inr (l, advance (pre @ z))
            else Inl (unexpected (current (pre @ z)))) = Inr (tree, z))"
    using s rp tr by (intro exI[of _ "[current s]"]) auto
qed

lemma atom_leaf:
  "type t \<in> {WILDCARD_FRAGMENT, QUOTED_STRING, IDENTIFIER}
   \<Longrightarrow> \<exists>tree. \<forall>d x. parse_atom (Suc d) (t # x) = Inr (tree, x)"
  by (cases "type t = WILDCARD_FRAGMENT"; cases "type t = QUOTED_STRING";
      cases "text_of t \<noteq> [] \<and> last (text_of t) = CHR ''*''") (auto simp: Let_def)

lemma atom_reject:
  "type t \<notin> {LPAREN, FIELD_NAME, WILDCARD_FRAGMENT, QUOTED_STRING, IDENTIFIER}
   \<Longrightarrow> current x = t \<Longrightarrow> parse_atom (Suc d) x = Inl (unexpected t)"
  by (simp add: Let_def)

lemma accepts_atom_step:
  assumes a: "\<And>s. accepts parse_or halts_or True 4 d s"
  shows "accepts parse_atom halts True 1 (Suc d) s"
proof -
  let ?t = "current s"
  consider (P) "type ?t = LPAREN"
    | (F) "type ?t = FIELD_NAME" "type (current (advance s)) = COLON"
    | (G) "type ?t = FIELD_NAME" "type (current (advance s)) \<noteq> COLON"
    | (L) "type ?t \<in> {WILDCARD_FRAGMENT, QUOTED_STRING, IDENTIFIER}"
    | (X) "type ?t \<notin> {LPAREN, FIELD_NAME, WILDCARD_FRAGMENT, QUOTED_STRING, IDENTIFIER}"
    by blast
  then show ?thesis
  proof cases
    case P
    then have s: "s = ?t # advance s" by (intro current_shape) simp
    have "accepts parse_atom halts True 1 (Suc d) ([?t] @ advance s)"
      by (rule accepts_seq[where ?p1.0 = parse_or
            and ?p2.0 = "\<lambda>e d s1. if type (current s1) = RPAREN then Inr (e, advance s1)
                           else Inl (unexpected (current s1))"
            and ?h1.0 = halts_or and ?ne2.0 = True and ?k1.0 = 4 and ?k2.0 = 0])
         (use P a accepts_expect in \<open>simp_all add: Let_def\<close>)
    with s show ?thesis by simp
  next
    case F
    then have s: "s = ?t # advance s" by (intro current_shape) simp
    from F have s': "advance s = current (advance s) # advance (advance s)"
      by (intro current_shape) simp
    let ?c = "current (advance s)"
    have "accepts parse_atom halts True 1 (Suc d) ([?t, ?c] @ advance (advance s))"
      by (rule accepts_pre[where Q = "\<lambda>d. parse_field_rest ?t" and ne = True and kQ = 0])
         (use F accepts_field_rest in \<open>simp_all add: Let_def\<close>)
    with s s' show ?thesis by simp
  next
    case G
    then have "parse_atom (Suc d) s = Inl (unexpected (current (advance s)))"
      by (simp add: Let_def)
    then show ?thesis by (intro accepts_never) simp
  next
    case L
    then have s: "s = ?t # advance s" by (intro current_shape) auto
    from atom_leaf[OF L] obtain leaf where
      leaf: "\<And>d x. parse_atom (Suc d) (?t # x) = Inr (leaf, x)" by blast
    show ?thesis
    proof (rule acceptsI)
      fix tree rest assume "parse_atom (Suc d) s = Inr (tree, rest)"
      with leaf[of d "advance s"] s have tr: "tree = leaf" "rest = advance s" by auto
      have "parse_atom d' ([?t] @ z) = Inr (tree, z)" if "1 + 4 * length [?t] \<le> d'" for z d'
      proof -
        from that obtain d'' where "d' = Suc d''" by (cases d') auto
        with leaf[of d'' z] tr show ?thesis by simp
      qed
      moreover have "noeof [?t]" using L by auto
      ultimately show "\<exists>pre. s = pre @ rest \<and> noeof pre \<and> pre \<noteq> [] \<and>
        (\<forall>z d'. 1 + 4 * length pre \<le> d' \<longrightarrow> current z = current rest \<or> halts (current z)
            \<longrightarrow> parse_atom d' (pre @ z) = Inr (tree, z))"
        using s tr by (intro exI[of _ "[?t]"]) auto
    qed
  next
    case X
    from atom_reject[OF X refl] show ?thesis by (intro accepts_never) simp
  qed
qed

lemma parse_accepts: "all_accept d"
proof (induction d)
  case 0
  show ?case unfolding all_accept_def by (intro conjI allI accepts_never) simp_all
next
  case (Suc d)
  then show ?case
    unfolding all_accept_def
    by (intro conjI allI accepts_or_step accepts_or_rest_step accepts_and_step accepts_and_rest_step
          accepts_unary_step accepts_atom_step) blast+
qed

text \<open>Where each function of the parser fails, one level of depth at a time.\<close>

lemma parse_accepts_each:
  "accepts parse_or halts_or True 4 d s"
  "accepts (\<lambda>d. parse_or_rest d l) halts_or False 1 d s"
  "accepts parse_and halts True 3 d s"
  "accepts (\<lambda>d. parse_and_rest d l) halts False 3 d s"
  "accepts parse_unary halts True 2 d s"
  "accepts parse_atom halts True 1 d s"
  using parse_accepts[of d] unfolding all_accept_def by blast+

lemma blames_or_step:
  assumes a: "\<And>s. blames parse_and 3 d s"
    and b: "\<And>l s. blames (\<lambda>d. parse_or_rest d l) 1 d s"
  shows "blames parse_or 4 (Suc d) s"
proof -
  have "blames parse_or 4 (Suc d) ([] @ s)"
    by (rule blames_seq[where ?p1.0 = parse_and and ?p2.0 = "\<lambda>l d. parse_or_rest d l"
          and ?h1.0 = halts and ?k1.0 = 3 and ?k2.0 = 1 and cl = "[]" and r = "\<lambda>l. l"])
       (use a b parse_accepts_each stops_halts completable_or or_rest_stops in simp_all)
  then show ?thesis by simp
qed

lemma blames_or_rest_step:
  assumes a: "\<And>s. blames parse_and 3 d s"
    and b: "\<And>l s. blames (\<lambda>d. parse_or_rest d l) 1 d s"
  shows "blames (\<lambda>d. parse_or_rest d l) 1 (Suc d) s"
proof (cases "is_keyword ''OR'' (current s)")
  case True
  have "blames (\<lambda>d. parse_or_rest d l) 1 (Suc d) ([current s] @ advance s)"
    by (rule blames_seq[where ?p1.0 = parse_and
          and ?p2.0 = "\<lambda>r d. parse_or_rest d (binary_node FP_OR l r)"
          and ?h1.0 = halts and ?k1.0 = 3 and ?k2.0 = 1 and cl = "[]"
          and r = "\<lambda>r. binary_node FP_OR l r"])
       (use True a b parse_accepts_each stops_halts or_rest_stops keyword_not_eof in simp_all)
  then show ?thesis using keyword_shape[OF True] by simp
next
  case False
  then show ?thesis by (intro blames_never) simp
qed

lemma blames_and_step:
  assumes a: "\<And>s. blames parse_unary 2 d s"
    and b: "\<And>l s. blames (\<lambda>d. parse_and_rest d l) 3 d s"
  shows "blames parse_and 3 (Suc d) s"
proof -
  have "blames parse_and 3 (Suc d) ([] @ s)"
    by (rule blames_seq[where ?p1.0 = parse_unary and ?p2.0 = "\<lambda>l d. parse_and_rest d l"
          and ?h1.0 = halts and ?k1.0 = 2 and ?k2.0 = 3 and cl = "[]" and r = "\<lambda>l. l"])
       (use a b parse_accepts_each stops_halts completable_and and_rest_stops in simp_all)
  then show ?thesis by simp
qed

lemma blames_and_rest_step:
  assumes a: "\<And>s. blames parse_unary 2 d s"
    and b: "\<And>l s. blames (\<lambda>d. parse_and_rest d l) 3 d s"
  shows "blames (\<lambda>d. parse_and_rest d l) 3 (Suc d) s"
proof -
  consider (A) "is_keyword ''AND'' (current s)"
    | (J) "\<not> is_keyword ''AND'' (current s)" "starts_unary (current s)"
    | (R) "\<not> is_keyword ''AND'' (current s)" "\<not> starts_unary (current s)"
    by blast
  then show ?thesis
  proof cases
    case A
    have "blames (\<lambda>d. parse_and_rest d l) 3 (Suc d) ([current s] @ advance s)"
      by (rule blames_seq[where ?p1.0 = parse_unary
            and ?p2.0 = "\<lambda>r d. parse_and_rest d (binary_node FP_AND l r)"
            and ?h1.0 = halts and ?k1.0 = 2 and ?k2.0 = 3 and cl = "[]"
            and r = "\<lambda>r. binary_node FP_AND l r"])
         (use A a b parse_accepts_each stops_halts and_rest_stops keyword_not_eof in simp_all)
    then show ?thesis using keyword_shape[OF A] by simp
  next
    case J
    have "blames (\<lambda>d. parse_and_rest d l) 3 (Suc d) ([] @ s)"
      by (rule blames_seq[where ?p1.0 = parse_unary
            and ?p2.0 = "\<lambda>r d. parse_and_rest d (binary_node FP_AND l r)"
            and ?h1.0 = halts and ?k1.0 = 2 and ?k2.0 = 3 and cl = "[]"
            and r = "\<lambda>r. binary_node FP_AND l r"])
         (use J a b parse_accepts_each stops_halts and_rest_stops completable_and_rest in simp_all)
    then show ?thesis by simp
  next
    case R
    then show ?thesis by (intro blames_never) simp
  qed
qed

lemma blames_unary_step:
  assumes a: "\<And>s. blames parse_unary 2 d s"
    and b: "\<And>s. blames parse_atom 1 d s"
  shows "blames parse_unary 2 (Suc d) s"
proof (cases "is_keyword ''NOT'' (current s)")
  case True
  let ?t = "current s"
  have "blames parse_unary 2 (Suc d) ([?t] @ advance s)"
  proof (rule blames_seq[where ?p1.0 = parse_unary
            and ?p2.0 = "\<lambda>e d s1. Inr (FP_NOT e (position ?t) (node_end e - position ?t), s1)"
            and ?h1.0 = halts and ?k1.0 = 2 and ?k2.0 = 0 and cl = "[]"
            and r = "\<lambda>e. FP_NOT e (position ?t) (node_end e - position ?t)"])
    fix l s1
    show "blames (\<lambda>d s1. Inr (FP_NOT l (position ?t) (node_end l - position ?t), s1)) 0 d s1"
      by (rule blames_never) simp
  qed (use True a parse_accepts_each stops_halts keyword_not_eof in simp_all)
  then show ?thesis using keyword_shape[OF True] by simp
next
  case False
  have "blames parse_unary 2 (Suc d) ([] @ s)"
    by (rule blames_pre[where Q = parse_atom and kQ = 1])
       (use False b completable_unary in simp_all)
  then show ?thesis by simp
qed

lemma completable_expect:
  "completable (\<lambda>d s1. if type (current s1) = RPAREN then Inr (l, advance s1)
                  else Inl (unexpected (current s1))) 0 []"
  by (rule completableI[where c = "[sample RPAREN]" and tree = l]) simp

lemma blames_expect:
  "blames (\<lambda>d s1. if type (current s1) = RPAREN then Inr (l, advance s1)
                  else Inl (unexpected (current s1))) 0 d s"
proof (rule blamesI)
  fix e
  assume "(if type (current s) = RPAREN then Inr (l, advance s) else Inl (unexpected (current s))) = Inl e"
  then have n: "type (current s) \<noteq> RPAREN" and e: "e = unexpected (current s)"
    by (auto split: if_splits)
  show "located (\<lambda>d s1. if type (current s1) = RPAREN then Inr (l, advance s1)
                  else Inl (unexpected (current s1))) 0 s e"
    by (rule locatedI[where pre = "[]" and post = s])
       (use n e completable_expect in auto)
qed

lemma blames_atom_step:
  assumes a: "\<And>s. blames parse_or 4 d s"
  shows "blames parse_atom 1 (Suc d) s"
proof -
  let ?t = "current s"
  consider (P) "type ?t = LPAREN"
    | (F) "type ?t = FIELD_NAME" "type (current (advance s)) = COLON"
    | (G) "type ?t = FIELD_NAME" "type (current (advance s)) \<noteq> COLON"
    | (L) "type ?t \<in> {WILDCARD_FRAGMENT, QUOTED_STRING, IDENTIFIER}"
    | (X) "type ?t \<notin> {LPAREN, FIELD_NAME, WILDCARD_FRAGMENT, QUOTED_STRING, IDENTIFIER}"
    by blast
  then show ?thesis
  proof cases
    case P
    then have s: "s = ?t # advance s" by (intro current_shape) simp
    have "blames parse_atom 1 (Suc d) ([?t] @ advance s)"
      by (rule blames_seq[where ?p1.0 = parse_or
            and ?p2.0 = "\<lambda>e d s1. if type (current s1) = RPAREN then Inr (e, advance s1)
                           else Inl (unexpected (current s1))"
            and ?h1.0 = halts_or and ?k1.0 = 4 and ?k2.0 = 0 and cl = "[sample RPAREN]"
            and r = "\<lambda>e. e"])
         (use P a parse_accepts_each blames_expect stops_halts_or in \<open>simp_all add: Let_def\<close>)
    with s show ?thesis by simp
  next
    case F
    then have s: "s = ?t # advance s" by (intro current_shape) simp
    from F have s': "advance s = current (advance s) # advance (advance s)"
      by (intro current_shape) simp
    let ?c = "current (advance s)"
    have "blames parse_atom 1 (Suc d) ([?t, ?c] @ advance (advance s))"
      by (rule blames_pre[where Q = "\<lambda>d. parse_field_rest ?t" and kQ = 0])
         (use F blames_field_rest in \<open>simp_all add: Let_def\<close>)
    with s s' show ?thesis by simp
  next
    case G
    then have s: "s = ?t # advance s" by (intro current_shape) simp
    have eq: "parse_atom (Suc d') (?t # x) = Inl (unexpected (current x))"
      if "type (current x) \<noteq> COLON" for x d'
      using G that by (simp add: Let_def)
    have eq2: "parse_atom (Suc d') (?t # sample COLON # x) = parse_field_rest ?t x" for x d'
      using G by (simp add: Let_def)
    show ?thesis
    proof (rule blamesI)
      fix e assume "parse_atom (Suc d) s = Inl e"
      with eq[OF G(2), of d] s have e: "e = unexpected (current (advance s))" by simp
      show "located parse_atom 1 s e"
      proof (rule locatedI[where pre = "[?t]" and post = "advance s"])
        show "s = [?t] @ advance s" using s by simp
        show "noeof [?t]" using G by simp
        show "e = unexpected (current (advance s))" by (rule e)
        show "parse_atom d' ([?t] @ z) = Inl e"
          if "1 + 4 * length [?t] \<le> d'" "current z = current (advance s)" for z d'
        proof -
          from that obtain d'' where "d' = Suc d''" by (cases d') auto
          with eq[of z d''] that G e show ?thesis by simp
        qed
        show "completable parse_atom 1 [?t]"
        proof (rule completableI[where c = "[sample COLON, sample IDENTIFIER]"])
          fix d' z assume "1 + 4 * length ([?t] @ [sample COLON, sample IDENTIFIER]) \<le> d'" and z: "stops z"
          then obtain d'' where "d' = Suc d''" by (cases d') auto
          then show "parse_atom d' ([?t] @ [sample COLON, sample IDENTIFIER] @ z)
             = Inr (FP_FIELD_VALUE (word_of ?t) (word_of (sample IDENTIFIER))
                     (position ?t) (token_end (sample IDENTIFIER) - position ?t), z)"
            using eq2[of d'' "sample IDENTIFIER # z"] field_rest_sample[OF z]
            by (simp del: parse_atom.simps)
        qed
      qed
    qed
  next
    case L
    then have s: "s = ?t # advance s" by (intro current_shape) auto
    from atom_leaf[OF L] obtain leaf where
      leaf: "\<And>d x. parse_atom (Suc d) (?t # x) = Inr (leaf, x)" by blast
    from leaf[of d "advance s"] s show ?thesis by (intro blames_never) simp
  next
    case X
    show ?thesis
    proof (rule blamesI)
      fix e assume "parse_atom (Suc d) s = Inl e"
      with atom_reject[OF X refl, of d] have e: "e = unexpected ?t" by simp
      show "located parse_atom 1 s e"
      proof (rule locatedI[where pre = "[]" and post = s])
        show "parse_atom d' ([] @ z) = Inl e"
          if "1 + 4 * length ([]::Token list) \<le> d'" "current z = current s" for z d'
        proof -
          from that obtain d'' where "d' = Suc d''" by (cases d') auto
          with atom_reject[OF X that(2), of d''] e show ?thesis by simp
        qed
      qed (use e completable_atom in simp_all)
    qed
  qed
qed

lemma parse_blames: "all_blame d"
proof (induction d)
  case 0
  show ?case unfolding all_blame_def by (intro conjI allI blames_fuel) simp_all
next
  case (Suc d)
  then show ?case
    unfolding all_blame_def
    by (intro conjI allI blames_or_step blames_or_rest_step blames_and_step blames_and_rest_step
          blames_unary_step blames_atom_step) blast+
qed

text \<open>
  The stream of the tokenizer ends with the end of input. On such a stream a failure of the
  parser blames one token of the stream; the tokens before it are viable, and behind them it
  makes the parser fail whatever follows. These two facts determine the token.
\<close>

lemma tokenize_ends_eof:
  "tokenize_from p v s \<noteq> [] \<and> type (last (tokenize_from p v s)) = EOF"
  by (induction p v s rule: tokenize_from.induct) (auto simp: Let_def eof_token_def)

lemma noeof_last:
  assumes "ts = pre @ post" "noeof pre" "ts \<noteq> []" "type (last ts) = EOF"
  shows "post \<noteq> []"
proof
  assume "post = []"
  with assms(1,3) have "pre \<noteq> []" "last ts = last pre" by auto
  then have "last ts \<in> set pre" by simp
  with assms(2,4) show False by (auto simp: noeof_def list_all_iff)
qed

lemma spec_parser_offending:
  assumes f: "spec_parseExpression ts = Inl e" and ne: "ts \<noteq> []" and eof: "type (last ts) = EOF"
  shows "\<exists>pre t post. ts = pre @ t # post \<and> e = unexpected t
           \<and> (\<forall>z. spec_parseExpression (pre @ t # z) = Inl e) \<and> viable pre"
proof -
  have "blames parse_or 4 (depth_bound ts) ts"
    using parse_blames[of "depth_bound ts"] unfolding all_blame_def by blast
  moreover have "4 + 4 * length ts \<le> depth_bound ts" by (simp add: depth_bound_def)
  ultimately have "located parse_or 4 ts e"
    using f unfolding blames_def spec_parseExpression_def by blast
  then obtain pre post where s: "ts = pre @ post" and n: "noeof pre"
      and e: "e = unexpected (current post)"
      and d: "\<And>z d'. 4 + 4 * length pre \<le> d' \<Longrightarrow> current z = current post
                 \<Longrightarrow> parse_or d' (pre @ z) = Inl e"
      and c: "completable parse_or 4 pre"
    unfolding located_def by blast
  from noeof_last[OF s n ne eof] obtain t post' where p: "post = t # post'"
    by (cases post) auto
  have 1: "spec_parseExpression (pre @ t # z) = Inl e" for z
    unfolding spec_parseExpression_def
    by (rule d) (simp_all add: depth_bound_def p)
  from c obtain cc tree where
    cc: "\<And>d' z. 4 + 4 * length (pre @ cc) \<le> d' \<Longrightarrow> stops z \<Longrightarrow> parse_or d' (pre @ cc @ z) = Inr (tree, z)"
    unfolding completable_def by blast
  have "spec_parseExpression (pre @ cc @ z) = Inr (tree, z)" if "type (current z) = EOF" for z
    unfolding spec_parseExpression_def
    by (rule cc) (use that in \<open>simp_all add: depth_bound_def stops_def\<close>)
  then have 2: "viable pre" unfolding viable_def by blast
  from s p e 1 2 show ?thesis by auto
qed

lemma offending_unique:
  assumes a: "ts = pre @ t # post" "\<forall>z. spec_parseExpression (pre @ t # z) = Inl e" "viable pre"
    and b: "ts = pre' @ t' # post'" "\<forall>z. spec_parseExpression (pre' @ t' # z) = Inl e'" "viable pre'"
  shows "pre = pre' \<and> t = t' \<and> post = post'"
proof -
  have no: False
    if x: "xs = p @ u # q" "\<forall>z. spec_parseExpression (p @ u # z) = Inl d"
      and y: "xs = p' @ u' # q'" "viable p'" and l: "length p < length p'"
    for xs p u q d p' u' q'
  proof -
    from x(1) y(1) l obtain w where w: "p' = p @ u # w"
      by (metis append_eq_append_conv_if append_eq_conv_conj id_take_nth_drop
            length_append less_imp_le_nat not_add_less1 nth_append nth_append_length
            take_all_iff append_take_drop_id)
    from y(2) obtain c tree where
      c: "\<And>z. type (current z) = EOF \<Longrightarrow> spec_parseExpression (p' @ c @ z) = Inr (tree, z)"
      unfolding viable_def by blast
    have "spec_parseExpression (p' @ c @ []) = Inr (tree, [])"
      by (rule c) simp
    with w x(2) show False by (metis append.assoc append_Cons sum.distinct(1))
  qed
  have "length pre = length pre'"
    using no[OF a(1,2) b(1,3)] no[OF b(1,2) a(1,3)] by (meson linorder_neqE_nat)
  with a(1) b(1) show ?thesis by auto
qed

section \<open>Properties of \<open>parseSearchInputQuery\<close>\<close>

text \<open>What a \<open>return\<close> inside the \<open>try\<close> block can return.\<close>

lemma parse_try_block_returns:
  assumes "parse_try_block st input fieldSchemas = Inr r"
  shows "r = SEARCH_QUERY None
       \<or> (\<exists>x. r = SEARCH_QUERY (Some x))
       \<or> (\<exists>errs. errs \<noteq> [] \<and> r = SEARCH_QUERY_ERROR None errs)"
  using assms unfolding parse_try_block_def
  by (auto simp: and_then_eq_Inr Let_def split: if_splits)

lemma parse_outcome_cases:
  "(\<exists>x. parseSearchInputQuery st input fieldSchemas = SEARCH_QUERY x)
     \<noteq> (\<exists>errs. errs \<noteq> [] \<and> parseSearchInputQuery st input fieldSchemas = SEARCH_QUERY_ERROR None errs)"
proof (cases "parse_try_block st input fieldSchemas")
  case (Inl e)
  then show ?thesis by (simp add: parseSearchInputQuery_def)
next
  case (Inr r)
  from parse_try_block_returns[OF Inr] show ?thesis
    using Inr by (auto simp: parseSearchInputQuery_def)
qed

text \<open>
  An expression comes back only from a run in which every stage returned and the merged
  list of diagnostics is empty; a run with a non-empty merged list returns that list.
\<close>

lemma parse_expression_only_if_clean:
  assumes "parseSearchInputQuery st input fieldSchemas = SEARCH_QUERY (Some expression)"
  shows "\<exists>tokens stream firstToken tree rest finalToken errors fieldErrors.
           tokenize st input = Inr tokens \<and> createStream st tokens = Inr stream
         \<and> currentToken st stream = Inr firstToken \<and> type firstToken \<noteq> EOF
         \<and> parseExpression st stream = Inr (tree, rest)
         \<and> currentToken st rest = Inr finalToken \<and> type finalToken = EOF
         \<and> validateSearchQuery st tree = Inr errors
         \<and> schema_diagnostics st tree fieldSchemas = Inr fieldErrors
         \<and> mergeErrors errors fieldErrors = []
         \<and> transformToExpression st tree (schemaMap_of fieldSchemas) = Inr expression"
proof -
  from assms have "parse_try_block st input fieldSchemas = Inr (SEARCH_QUERY (Some expression))"
    by (auto simp: parseSearchInputQuery_def split: sum.splits)
  then show ?thesis
    unfolding parse_try_block_def schema_diagnostics_def
    apply (simp add: and_then_eq_Inr Let_def split: if_splits)
    apply (elim exE conjE)
    apply (auto simp: and_then_eq_Inr o_def split: if_splits)
    done
qed

lemma parse_error_if_diagnostics:
  assumes "tokenize st input = Inr tokens" "createStream st tokens = Inr stream"
    and "currentToken st stream = Inr firstToken" "type firstToken \<noteq> EOF"
    and "parseExpression st stream = Inr (tree, rest)"
    and "currentToken st rest = Inr finalToken" "type finalToken = EOF"
    and "validateSearchQuery st tree = Inr errors"
    and "schema_diagnostics st tree fieldSchemas = Inr fieldErrors"
    and "mergeErrors errors fieldErrors \<noteq> []"
  shows "parseSearchInputQuery st input fieldSchemas
           = SEARCH_QUERY_ERROR None (mergeErrors errors fieldErrors)"
  using assms
  by (auto simp: parseSearchInputQuery_def parse_try_block_def schema_diagnostics_def Let_def o_def
           split: if_splits)

text \<open>
  Claim C1. Every call of \<open>parseSearchInputQuery\<close> ends in exactly one of two outcomes: a
  \<open>SEARCH_QUERY\<close> (which has no \<open>errors\<close> field) or a \<open>SEARCH_QUERY_ERROR\<close> whose expression
  is null and whose list of errors is not empty. An expression is returned only from a run
  in which the merged list of diagnostics is empty; and in a run whose merged list is not
  empty the result is the error bundle with that list, whatever stands in the place of
  \<open>transformToExpression\<close>, which is therefore not invoked.
\<close>

theorem parse_outcomes:
  "((\<exists>x. parseSearchInputQuery st input fieldSchemas = SEARCH_QUERY x)
      \<noteq> (\<exists>errs. errs \<noteq> []
             \<and> parseSearchInputQuery st input fieldSchemas = SEARCH_QUERY_ERROR None errs))
 \<and> (parseSearchInputQuery st input fieldSchemas = SEARCH_QUERY (Some expression) \<longrightarrow>
      (\<exists>tokens stream firstToken tree rest finalToken errors fieldErrors.
           tokenize st input = Inr tokens \<and> createStream st tokens = Inr stream
         \<and> currentToken st stream = Inr firstToken \<and> type firstToken \<noteq> EOF
         \<and> parseExpression st stream = Inr (tree, rest)
         \<and> currentToken st rest = Inr finalToken \<and> type finalToken = EOF
         \<and> validateSearchQuery st tree = Inr errors
         \<and> schema_diagnostics st tree fieldSchemas = Inr fieldErrors
         \<and> mergeErrors errors fieldErrors = []
         \<and> transformToExpression st tree (schemaMap_of fieldSchemas) = Inr expression))
 \<and> (tokenize st input = Inr tokens \<and> createStream st tokens = Inr stream
      \<and> currentToken st stream = Inr firstToken \<and> type firstToken \<noteq> EOF
      \<and> parseExpression st stream = Inr (tree, rest)
      \<and> currentToken st rest = Inr finalToken \<and> type finalToken = EOF
      \<and> validateSearchQuery st tree = Inr errors
      \<and> schema_diagnostics st tree fieldSchemas = Inr fieldErrors
      \<and> mergeErrors errors fieldErrors \<noteq> []
      \<longrightarrow> parseSearchInputQuery (st\<lparr>transformToExpression := other\<rparr>) input fieldSchemas
            = SEARCH_QUERY_ERROR None (mergeErrors errors fieldErrors))"
proof (intro conjI impI)
  show "(\<exists>x. parseSearchInputQuery st input fieldSchemas = SEARCH_QUERY x)
      \<noteq> (\<exists>errs. errs \<noteq> []
             \<and> parseSearchInputQuery st input fieldSchemas = SEARCH_QUERY_ERROR None errs)"
    by (rule parse_outcome_cases)
next
  assume "parseSearchInputQuery st input fieldSchemas = SEARCH_QUERY (Some expression)"
  then show "\<exists>tokens stream firstToken tree rest finalToken errors fieldErrors.
           tokenize st input = Inr tokens \<and> createStream st tokens = Inr stream
         \<and> currentToken st stream = Inr firstToken \<and> type firstToken \<noteq> EOF
         \<and> parseExpression st stream = Inr (tree, rest)
         \<and> currentToken st rest = Inr finalToken \<and> type finalToken = EOF
         \<and> validateSearchQuery st tree = Inr errors
         \<and> schema_diagnostics st tree fieldSchemas = Inr fieldErrors
         \<and> mergeErrors errors fieldErrors = []
         \<and> transformToExpression st tree (schemaMap_of fieldSchemas) = Inr expression"
    by (rule parse_expression_only_if_clean)
next
  assume a: "tokenize st input = Inr tokens \<and> createStream st tokens = Inr stream
      \<and> currentToken st stream = Inr firstToken \<and> type firstToken \<noteq> EOF
      \<and> parseExpression st stream = Inr (tree, rest)
      \<and> currentToken st rest = Inr finalToken \<and> type finalToken = EOF
      \<and> validateSearchQuery st tree = Inr errors
      \<and> schema_diagnostics st tree fieldSchemas = Inr fieldErrors
      \<and> mergeErrors errors fieldErrors \<noteq> []"
  let ?st = "st\<lparr>transformToExpression := other\<rparr>"
  have "schema_diagnostics ?st tree fieldSchemas = schema_diagnostics st tree fieldSchemas"
    by (simp add: schema_diagnostics_def)
  with a show "parseSearchInputQuery ?st input fieldSchemas
            = SEARCH_QUERY_ERROR None (mergeErrors errors fieldErrors)"
    by (intro parse_error_if_diagnostics[where tokens = tokens and stream = stream
          and firstToken = firstToken and tree = tree and rest = rest
          and finalToken = finalToken]) simp_all
qed

text \<open>
  The input \<open>and:foo\<close> with the schema of a field \<open>Title\<close>: the structural diagnostic of the
  reserved word and the schema diagnostic of the unknown field have the same span, the
  merged list holds the structural one, and the error bundle comes back also when the
  transformer is one that always throws.
\<close>

theorem parse_outcomes_witness:
  "parseSearchInputQuery (example_stages\<lparr>transformToExpression := \<lambda>tree schemas. Inl boom\<rparr>)
     ''and:foo'' [\<lparr>name = ''Title'', field_type = StringType\<rparr>]
   = SEARCH_QUERY_ERROR None
       [\<lparr>position = 0, len = 3, message = ''and is a reserved word'',
         code = Some RESERVED_WORD_AS_FIELD, evalue = Some ''and''\<rparr>]"
proof -
  let ?fs = "[\<lparr>name = ''Title'', field_type = StringType\<rparr>]"
  let ?f = "\<lparr>position = 0, len = 3, type = FIELD_NAME, text_of = ''and''\<rparr>"
  let ?c = "\<lparr>position = 3, len = 1, type = COLON, text_of = '':''\<rparr>"
  let ?v = "\<lparr>position = 4, len = 3, type = BARE_VALUE, text_of = ''foo''\<rparr>"
  let ?e = "\<lparr>position = 7, len = 0, type = EOF, text_of = ''''\<rparr>"
  let ?tree = "FP_FIELD_VALUE \<lparr>position = 0, len = 3, value = ''and''\<rparr>
                 \<lparr>position = 4, len = 3, value = ''foo''\<rparr> 0 7"
  let ?s = "\<lparr>position = 0, len = 3, message = ''and is a reserved word'',
             code = Some RESERVED_WORD_AS_FIELD, evalue = Some ''and''\<rparr>"
  let ?u = "\<lparr>position = 0, len = 3, message = ''Unknown field and'',
             code = Some UNKNOWN_FIELD, evalue = None\<rparr>"
  have 1: "tokenize example_stages ''and:foo'' = Inr [?f, ?c, ?v, ?e]" by code_simp
  have 2: "createStream example_stages [?f, ?c, ?v, ?e] = Inr [?f, ?c, ?v, ?e]" by code_simp
  have 3: "currentToken example_stages [?f, ?c, ?v, ?e] = Inr ?f" by code_simp
  have 4: "type ?f \<noteq> EOF" by simp
  have 5: "parseExpression example_stages [?f, ?c, ?v, ?e] = Inr (?tree, [?e])" by code_simp
  have 6: "currentToken example_stages [?e] = Inr ?e" by code_simp
  have 7: "type ?e = EOF" by simp
  have 8: "validateSearchQuery example_stages ?tree = Inr [?s]" by code_simp
  have 9: "schema_diagnostics example_stages ?tree ?fs = Inr [?u]" by code_simp
  have 10: "mergeErrors [?s] [?u] = [?s]" by code_simp
  from 10 have 11: "mergeErrors [?s] [?u] \<noteq> []" by simp
  from parse_outcomes [of example_stages "''and:foo''" ?fs _ "[?f, ?c, ?v, ?e]" "[?f, ?c, ?v, ?e]"
        ?f ?tree "[?e]" ?e "[?s]" "[?u]" "\<lambda>tree schemas. Inl boom"]
    1 2 3 4 5 6 7 8 9 11
  have "parseSearchInputQuery (example_stages\<lparr>transformToExpression := \<lambda>tree schemas. Inl boom\<rparr>)
          ''and:foo'' ?fs = SEARCH_QUERY_ERROR None (mergeErrors [?s] [?u])"
    by blast
  with 10 show ?thesis by simp
qed

text \<open>
  Claim C4. Structural errors are fail-fast. When \<open>parseExpression\<close> throws, the call
  returns a \<open>SEARCH_QUERY_ERROR\<close> whose list of errors is the thrown diagnostic alone, as the
  parser made it. When \<open>parseExpression\<close> returns and the current token of the stream it
  leaves is not the end of input, the call returns a \<open>SEARCH_QUERY_ERROR\<close> whose list of
  errors has exactly one element, and that element has the position and the length of the
  leftover token. Both hold for every choice of the stages. The stream of the tokenizer of
  the spec is not empty and ends with the end-of-input token. On such a stream, the
  diagnostic that the parser of the spec throws is the one of the offending token \<open>t\<close> of the
  stream, with its position and its length: the tokens \<open>pre\<close> before \<open>t\<close> are the beginning of
  a stream that the parser accepts, and the parser fails with this same diagnostic on every
  stream that begins with \<open>pre\<close> and \<open>t\<close>.
\<close>

theorem structural_errors_fail_fast:
  "(tokenize st input = Inr tokens \<and> createStream st tokens = Inr stream
      \<and> currentToken st stream = Inr firstToken \<and> type firstToken \<noteq> EOF
      \<and> parseExpression st stream = Inl e
    \<longrightarrow> parseSearchInputQuery st input fieldSchemas = SEARCH_QUERY_ERROR None [e])
 \<and> (tokenize st input = Inr tokens \<and> createStream st tokens = Inr stream
      \<and> currentToken st stream = Inr firstToken \<and> type firstToken \<noteq> EOF
      \<and> parseExpression st stream = Inr (tree, rest)
      \<and> currentToken st rest = Inr finalToken \<and> type finalToken \<noteq> EOF
    \<longrightarrow> (\<exists>d. parseSearchInputQuery st input fieldSchemas = SEARCH_QUERY_ERROR None [d]
             \<and> position d = position finalToken \<and> len d = len finalToken
             \<and> d = unexpected_token_error finalToken))
 \<and> (spec_tokenize input = Inr ts \<longrightarrow> ts \<noteq> [] \<and> type (last ts) = EOF)
 \<and> (ts \<noteq> [] \<and> type (last ts) = EOF \<and> spec_parseExpression ts = Inl e
    \<longrightarrow> (\<exists>pre t post. ts = pre @ t # post \<and> e = unexpected t
             \<and> position e = position t \<and> len e = len t
             \<and> (\<forall>z. spec_parseExpression (pre @ t # z) = Inl e) \<and> viable pre))"
proof (intro conjI impI)
  assume "ts \<noteq> [] \<and> type (last ts) = EOF \<and> spec_parseExpression ts = Inl e"
  then obtain pre t post where "ts = pre @ t # post" "e = unexpected t"
      "\<forall>z. spec_parseExpression (pre @ t # z) = Inl e" "viable pre"
    using spec_parser_offending[of ts e] by blast
  then show "\<exists>pre t post. ts = pre @ t # post \<and> e = unexpected t
             \<and> position e = position t \<and> len e = len t
             \<and> (\<forall>z. spec_parseExpression (pre @ t # z) = Inl e) \<and> viable pre"
    by (auto simp: unexpected_def)
next
  assume "spec_tokenize input = Inr ts"
  then have "ts = tokenize_from 0 False input" by (simp add: spec_tokenize_def)
  then show "ts \<noteq> []" "type (last ts) = EOF" using tokenize_ends_eof by auto
qed (auto simp: parseSearchInputQuery_def parse_try_block_def unexpected_token_error_def)

text \<open>
  The inputs \<open>price:>\<close> and \<open>title:foo)\<close>. The first stops the parser at the end of input
  (offset 7, length 0), behind the range operator that lacks its value: the three tokens
  before it are viable, and behind them the end-of-input token makes the parser fail whatever
  follows. The second leaves the closing parenthesis at offset 9 unconsumed.
\<close>

theorem structural_errors_fail_fast_witness:
  "parseSearchInputQuery example_stages ''price:>'' []
     = SEARCH_QUERY_ERROR None
         [\<lparr>position = 7, len = 0, message = ''Unexpected token '', code = None, evalue = None\<rparr>]
 \<and> tokenize_from 0 False ''price:>''
     = [\<lparr>position = 0, len = 5, type = FIELD_NAME, text_of = ''price''\<rparr>,
        \<lparr>position = 5, len = 1, type = COLON, text_of = '':''\<rparr>,
        \<lparr>position = 6, len = 1, type = RANGE_OPERATOR, text_of = ''>''\<rparr>]
       @ \<lparr>position = 7, len = 0, type = EOF, text_of = []\<rparr> # []
 \<and> (\<forall>z. spec_parseExpression
          ([\<lparr>position = 0, len = 5, type = FIELD_NAME, text_of = ''price''\<rparr>,
            \<lparr>position = 5, len = 1, type = COLON, text_of = '':''\<rparr>,
            \<lparr>position = 6, len = 1, type = RANGE_OPERATOR, text_of = ''>''\<rparr>]
           @ \<lparr>position = 7, len = 0, type = EOF, text_of = []\<rparr> # z)
       = Inl \<lparr>position = 7, len = 0, message = ''Unexpected token '', code = None, evalue = None\<rparr>)
 \<and> viable [\<lparr>position = 0, len = 5, type = FIELD_NAME, text_of = ''price''\<rparr>,
            \<lparr>position = 5, len = 1, type = COLON, text_of = '':''\<rparr>,
            \<lparr>position = 6, len = 1, type = RANGE_OPERATOR, text_of = ''>''\<rparr>]
 \<and> (\<exists>d. parseSearchInputQuery example_stages ''title:foo)'' [] = SEARCH_QUERY_ERROR None [d]
         \<and> position d = 9 \<and> len d = 1)"
proof -
  let ?p = "\<lparr>position = 0, len = 5, type = FIELD_NAME, text_of = ''price''\<rparr>"
  let ?q = "\<lparr>position = 5, len = 1, type = COLON, text_of = '':''\<rparr>"
  let ?o = "\<lparr>position = 6, len = 1, type = RANGE_OPERATOR, text_of = ''>''\<rparr>"
  let ?z = "\<lparr>position = 7, len = 0, type = EOF, text_of = []\<rparr>"
  let ?f = "\<lparr>position = 0, len = 5, type = FIELD_NAME, text_of = ''title''\<rparr>"
  let ?c = "\<lparr>position = 5, len = 1, type = COLON, text_of = '':''\<rparr>"
  let ?v = "\<lparr>position = 6, len = 3, type = BARE_VALUE, text_of = ''foo''\<rparr>"
  let ?r = "\<lparr>position = 9, len = 1, type = RPAREN, text_of = '')''\<rparr>"
  let ?e = "\<lparr>position = 10, len = 0, type = EOF, text_of = []\<rparr>"
  let ?d = "\<lparr>position = 7, len = 0, message = ''Unexpected token '', code = None, evalue = None\<rparr>"
  let ?tree = "FP_FIELD_VALUE \<lparr>position = 0, len = 5, value = ''title''\<rparr>
                 \<lparr>position = 6, len = 3, value = ''foo''\<rparr> 0 9"
  let ?ts1 = "[?p, ?q, ?o, ?z]"
  let ?ts2 = "[?f, ?c, ?v, ?r, ?e]"
  have a0: "tokenize_from 0 False ''price:>'' = ?ts1" by code_simp
  have a1: "tokenize example_stages ''price:>'' = Inr ?ts1" by code_simp
  have a2: "createStream example_stages ?ts1 = Inr ?ts1" by code_simp
  have a3: "currentToken example_stages ?ts1 = Inr ?p" by code_simp
  have a4: "type ?p \<noteq> EOF" by simp
  have a5: "parseExpression example_stages ?ts1 = Inl ?d" by code_simp
  have a6: "spec_parseExpression ?ts1 = Inl ?d" by code_simp
  have a7: "?ts1 \<noteq> [] \<and> type (last ?ts1) = EOF" by simp
  note first = structural_errors_fail_fast [where st = example_stages and input = "''price:>''"
      and tokens = ?ts1 and stream = ?ts1 and firstToken = ?p and e = ?d and fieldSchemas = "[]"
      and ts = ?ts1]
  from first a1 a2 a3 a4 a5
  have r1: "parseSearchInputQuery example_stages ''price:>'' [] = SEARCH_QUERY_ERROR None [?d]"
    by blast
  from first a6 a7 obtain pre t post where s: "?ts1 = pre @ t # post"
      and p: "position ?d = position t"
      and rej: "\<forall>z. spec_parseExpression (pre @ t # z) = Inl ?d" and via: "viable pre"
    by blast
  from p have p7: "position t = 7" by simp
  from s p7 have "pre = [?p, ?q, ?o] \<and> t = ?z"
    by (auto simp: Cons_eq_append_conv)
  with rej via have r2: "\<forall>z. spec_parseExpression ([?p, ?q, ?o] @ ?z # z) = Inl ?d"
      and r3: "viable [?p, ?q, ?o]"
    by simp_all
  have r0: "tokenize_from 0 False ''price:>'' = [?p, ?q, ?o] @ ?z # []"
    using a0 by simp
  have b1: "tokenize example_stages ''title:foo)'' = Inr ?ts2" by code_simp
  have b2: "createStream example_stages ?ts2 = Inr ?ts2" by code_simp
  have b3: "currentToken example_stages ?ts2 = Inr ?f" by code_simp
  have b4: "type ?f \<noteq> EOF" by simp
  have b5: "parseExpression example_stages ?ts2 = Inr (?tree, [?r, ?e])" by code_simp
  have b6: "currentToken example_stages [?r, ?e] = Inr ?r" by code_simp
  have b7: "type ?r \<noteq> EOF" by simp
  from structural_errors_fail_fast [where st = example_stages and input = "''title:foo)''"
      and tokens = ?ts2 and stream = ?ts2 and firstToken = ?f and fieldSchemas = "[]"
      and tree = ?tree and rest = "[?r, ?e]" and finalToken = ?r]
    b1 b2 b3 b4 b5 b6 b7
  have "\<exists>d. parseSearchInputQuery example_stages ''title:foo)'' [] = SEARCH_QUERY_ERROR None [d]
          \<and> position d = position ?r \<and> len d = len ?r"
    by blast
  then have r4: "\<exists>d. parseSearchInputQuery example_stages ''title:foo)'' [] = SEARCH_QUERY_ERROR None [d]
          \<and> position d = 9 \<and> len d = 1"
    by simp
  from r1 r0 r2 r3 r4 show ?thesis by (intro conjI)
qed

text \<open>
  Claim C9. \<open>parseSearchInputQuery\<close> returns a result for every input and never raises:
  the whole body stands in the \<open>try\<close> block, and whatever value a stage throws (the
  tokenizer, the stream functions, the parser, the two validators, the transformer) comes
  back as a \<open>SEARCH_QUERY_ERROR\<close> whose list of errors is that value alone.
\<close>

theorem parse_catches:
  "((\<exists>x. parseSearchInputQuery st input fieldSchemas = SEARCH_QUERY x)
      \<or> (\<exists>errs. parseSearchInputQuery st input fieldSchemas = SEARCH_QUERY_ERROR None errs))
 \<and> (parse_try_block st input fieldSchemas = Inl e
      \<longrightarrow> parseSearchInputQuery st input fieldSchemas = SEARCH_QUERY_ERROR None [e])
 \<and> (tokenize st input = Inl e
      \<longrightarrow> parseSearchInputQuery st input fieldSchemas = SEARCH_QUERY_ERROR None [e])
 \<and> (tokenize st input = Inr tokens \<longrightarrow>
      (createStream st tokens = Inl e
        \<longrightarrow> parseSearchInputQuery st input fieldSchemas = SEARCH_QUERY_ERROR None [e])
    \<and> (createStream st tokens = Inr stream \<longrightarrow>
      (currentToken st stream = Inl e
        \<longrightarrow> parseSearchInputQuery st input fieldSchemas = SEARCH_QUERY_ERROR None [e])
    \<and> (currentToken st stream = Inr firstToken \<and> type firstToken \<noteq> EOF \<longrightarrow>
      (parseExpression st stream = Inl e
        \<longrightarrow> parseSearchInputQuery st input fieldSchemas = SEARCH_QUERY_ERROR None [e])
    \<and> (parseExpression st stream = Inr (tree, rest) \<longrightarrow>
      (currentToken st rest = Inl e
        \<longrightarrow> parseSearchInputQuery st input fieldSchemas = SEARCH_QUERY_ERROR None [e])
    \<and> (currentToken st rest = Inr finalToken \<and> type finalToken = EOF \<longrightarrow>
      (validateSearchQuery st tree = Inl e
        \<longrightarrow> parseSearchInputQuery st input fieldSchemas = SEARCH_QUERY_ERROR None [e])
    \<and> (validateSearchQuery st tree = Inr errors \<longrightarrow>
      (schema_diagnostics st tree fieldSchemas = Inl e
        \<longrightarrow> parseSearchInputQuery st input fieldSchemas = SEARCH_QUERY_ERROR None [e])
    \<and> (schema_diagnostics st tree fieldSchemas = Inr fieldErrors
        \<and> mergeErrors errors fieldErrors = []
        \<and> transformToExpression st tree (schemaMap_of fieldSchemas) = Inl e
        \<longrightarrow> parseSearchInputQuery st input fieldSchemas = SEARCH_QUERY_ERROR None [e])))))))"
proof -
  have total: "(\<exists>x. parseSearchInputQuery st input fieldSchemas = SEARCH_QUERY x)
      \<or> (\<exists>errs. parseSearchInputQuery st input fieldSchemas = SEARCH_QUERY_ERROR None errs)"
    using parse_outcome_cases [of st input fieldSchemas] by blast
  have caught: "parseSearchInputQuery st input fieldSchemas = SEARCH_QUERY_ERROR None [e]"
    if "parse_try_block st input fieldSchemas = Inl e"
    using that by (simp add: parseSearchInputQuery_def)
  have stages: "parse_try_block st input fieldSchemas = Inl e"
    if "tokenize st input = Inl e
      \<or> (tokenize st input = Inr tokens \<and> (createStream st tokens = Inl e
      \<or> (createStream st tokens = Inr stream \<and> (currentToken st stream = Inl e
      \<or> (currentToken st stream = Inr firstToken \<and> type firstToken \<noteq> EOF
           \<and> (parseExpression st stream = Inl e
      \<or> (parseExpression st stream = Inr (tree, rest) \<and> (currentToken st rest = Inl e
      \<or> (currentToken st rest = Inr finalToken \<and> type finalToken = EOF
           \<and> (validateSearchQuery st tree = Inl e
      \<or> (validateSearchQuery st tree = Inr errors
           \<and> (schema_diagnostics st tree fieldSchemas = Inl e
      \<or> (schema_diagnostics st tree fieldSchemas = Inr fieldErrors
           \<and> mergeErrors errors fieldErrors = []
           \<and> transformToExpression st tree (schemaMap_of fieldSchemas) = Inl e)))))))))))))"
    using that
    by (auto simp: parse_try_block_def schema_diagnostics_def Let_def o_def split: if_splits)
  show ?thesis
    using total caught stages by blast
qed

text \<open>
  The input \<open>title:foo\<close> through the pipeline of the examples with a tokenizer that throws,
  and with a transformer that throws: both times the thrown value comes back alone.
\<close>

theorem parse_catches_witness:
  "parseSearchInputQuery (example_stages\<lparr>tokenize := \<lambda>input. Inl boom\<rparr>) ''title:foo'' []
     = SEARCH_QUERY_ERROR None [boom]
 \<and> parseSearchInputQuery (example_stages\<lparr>transformToExpression := \<lambda>tree schemas. Inl boom\<rparr>)
      ''title:foo'' []
     = SEARCH_QUERY_ERROR None [boom]"
proof -
  let ?st1 = "example_stages\<lparr>tokenize := \<lambda>input. Inl boom\<rparr>"
  let ?st2 = "example_stages\<lparr>transformToExpression := \<lambda>tree schemas. Inl boom\<rparr>"
  let ?f = "\<lparr>position = 0, len = 5, type = FIELD_NAME, text_of = ''title''\<rparr>"
  let ?c = "\<lparr>position = 5, len = 1, type = COLON, text_of = '':''\<rparr>"
  let ?v = "\<lparr>position = 6, len = 3, type = BARE_VALUE, text_of = ''foo''\<rparr>"
  let ?e = "\<lparr>position = 9, len = 0, type = EOF, text_of = ''''\<rparr>"
  let ?ts = "[?f, ?c, ?v, ?e]"
  let ?tree = "FP_FIELD_VALUE \<lparr>position = 0, len = 5, value = ''title''\<rparr>
                 \<lparr>position = 6, len = 3, value = ''foo''\<rparr> 0 9"
  have "tokenize ?st1 ''title:foo'' = Inl boom" by simp
  with parse_catches [of ?st1 "''title:foo''" "[]" boom]
  have first: "parseSearchInputQuery ?st1 ''title:foo'' [] = SEARCH_QUERY_ERROR None [boom]"
    by blast
  have 1: "tokenize ?st2 ''title:foo'' = Inr ?ts" by code_simp
  have 2: "createStream ?st2 ?ts = Inr ?ts" by code_simp
  have 3: "currentToken ?st2 ?ts = Inr ?f \<and> type ?f \<noteq> EOF" by code_simp
  have 4: "parseExpression ?st2 ?ts = Inr (?tree, [?e])" by code_simp
  have 5: "currentToken ?st2 [?e] = Inr ?e \<and> type ?e = EOF" by code_simp
  have 6: "validateSearchQuery ?st2 ?tree = Inr []" by code_simp
  have 7: "schema_diagnostics ?st2 ?tree [] = Inr [] \<and> mergeErrors [] [] = []
         \<and> transformToExpression ?st2 ?tree (schemaMap_of []) = Inl boom"
    by (simp add: schema_diagnostics_def mergeErrors_def)
  from parse_catches [of ?st2 "''title:foo''" "[]" boom ?ts ?ts ?f ?tree "[?e]" ?e "[]" "[]"]
    1 2 3 4 5 6 7
  have "parseSearchInputQuery ?st2 ''title:foo'' [] = SEARCH_QUERY_ERROR None [boom]"
    by blast
  with first show ?thesis by simp
qed

text \<open>
  Claim C6. With the tokenizer of the spec, and whatever the later stages and the field
  schemas are, \<open>parseSearchInputQuery\<close> returns the \<open>SEARCH_QUERY\<close> with a null expression
  (an object without errors) for every input that is empty or consists of whitespace only,
  and for no other input: any other input gives a \<open>SEARCH_QUERY\<close> with an expression or the
  error bundle.
\<close>

theorem empty_input_null:
  "parseSearchInputQuery (with_spec_lexer st) input fieldSchemas = SEARCH_QUERY None
     \<longleftrightarrow> list_all is_whitespace input"
proof
  assume "list_all is_whitespace input"
  then have "type (current (tokenize_from 0 False input)) = EOF"
    by (simp add: first_token_eof_iff)
  then show "parseSearchInputQuery (with_spec_lexer st) input fieldSchemas = SEARCH_QUERY None"
    by (simp add: parseSearchInputQuery_def parse_try_block_def with_spec_lexer_def
          spec_tokenize_def spec_createStream_def spec_currentToken_def)
next
  assume r: "parseSearchInputQuery (with_spec_lexer st) input fieldSchemas = SEARCH_QUERY None"
  show "list_all is_whitespace input"
  proof (rule ccontr)
    assume "\<not> list_all is_whitespace input"
    then have ne: "type (current (tokenize_from 0 False input)) \<noteq> EOF"
      by (simp add: first_token_eof_iff)
    from r have "parse_try_block (with_spec_lexer st) input fieldSchemas = Inr (SEARCH_QUERY None)"
      by (auto simp: parseSearchInputQuery_def split: sum.splits)
    with ne show False
      by (auto simp: parse_try_block_def with_spec_lexer_def spec_tokenize_def
            spec_createStream_def spec_currentToken_def and_then_eq_Inr Let_def
          split: if_splits)
  qed
qed

text \<open>
  The input of a space, a tab and a line feed, with the schema of a field \<open>title\<close>, and the
  input \<open>x\<close>.
\<close>

theorem empty_input_null_witness:
  "parseSearchInputQuery (with_spec_lexer example_stages) [CHR 0x20, CHR 0x09, CHR 0x0A]
     [\<lparr>name = ''title'', field_type = StringType\<rparr>] = SEARCH_QUERY None
 \<and> parseSearchInputQuery (with_spec_lexer example_stages) ''x'' [] \<noteq> SEARCH_QUERY None"
  using empty_input_null [of example_stages "[CHR 0x20, CHR 0x09, CHR 0x0A]"
      "[\<lparr>name = ''title'', field_type = StringType\<rparr>]"]
    empty_input_null [of example_stages "''x''" "[]"]
  by (simp add: is_whitespace_def)

text \<open>
  Claim C2 fails at the input \<open>title:"foo bar"\<close>. It parses without diagnostics to the
  field/value pair of \<open>title\<close> and \<open>foo bar\<close>; \<open>stringify\<close> renders the pair as
  \<open>title:foo bar\<close>, without the quotes; and that text parses, again without diagnostics, to
  the conjunction of the pair \<open>title:foo\<close> and the search term \<open>bar\<close>, which is not
  structurally equal to the expression that was serialized.
\<close>

theorem roundtrip_failing_input:
  "parseSearchInputQuery (spec_stages schema_validator) (''title:'' @ quoted ''foo bar'') []
     = SEARCH_QUERY (Some (FIELD_VALUE \<lparr>position = 0, len = 5, value = ''title''\<rparr>
                                       \<lparr>position = 6, len = 9, value = ''foo bar''\<rparr>))
 \<and> stringify (FIELD_VALUE \<lparr>position = 0, len = 5, value = ''title''\<rparr>
                           \<lparr>position = 6, len = 9, value = ''foo bar''\<rparr>) = ''title:foo bar''
 \<and> parseSearchInputQuery (spec_stages schema_validator) ''title:foo bar'' []
     = SEARCH_QUERY (Some (AND (FIELD_VALUE \<lparr>position = 0, len = 5, value = ''title''\<rparr>
                                            \<lparr>position = 6, len = 3, value = ''foo''\<rparr>)
                               (SEARCH_TERM ''bar'' 10 3) 0 13))
 \<and> \<not> structurally_equal
       (AND (FIELD_VALUE \<lparr>position = 0, len = 5, value = ''title''\<rparr>
                         \<lparr>position = 6, len = 3, value = ''foo''\<rparr>)
            (SEARCH_TERM ''bar'' 10 3) 0 13)
       (FIELD_VALUE \<lparr>position = 0, len = 5, value = ''title''\<rparr>
                    \<lparr>position = 6, len = 9, value = ''foo bar''\<rparr>)"
proof -
  have "parseSearchInputQuery (spec_stages schema_validator) (''title:'' @ quoted ''foo bar'') []
     = SEARCH_QUERY (Some (FIELD_VALUE \<lparr>position = 0, len = 5, value = ''title''\<rparr>
                                       \<lparr>position = 6, len = 9, value = ''foo bar''\<rparr>))"
    by code_simp
  moreover
  have "stringify (FIELD_VALUE \<lparr>position = 0, len = 5, value = ''title''\<rparr>
                           \<lparr>position = 6, len = 9, value = ''foo bar''\<rparr>) = ''title:foo bar''"
    by simp
  moreover
  have "parseSearchInputQuery (spec_stages schema_validator) ''title:foo bar'' []
     = SEARCH_QUERY (Some (AND (FIELD_VALUE \<lparr>position = 0, len = 5, value = ''title''\<rparr>
                                            \<lparr>position = 6, len = 3, value = ''foo''\<rparr>)
                               (SEARCH_TERM ''bar'' 10 3) 0 13))"
    by code_simp
  ultimately show ?thesis
    by (simp add: structurally_equal_def)
qed

end
